theory Spec2Isabelle
  imports Main "HOL-Library.Sublist"
begin

section \<open>Go strings\<close>

text \<open>
  A Go string is a sequence of bytes; \<open>string\<close> (a list of \<open>char\<close>) models it byte by
  byte. Every pattern and cut set the program passes to the functions below is a literal
  of ASCII characters, and an ASCII byte never occurs inside a multi-byte UTF-8 sequence,
  so working on bytes gives what Go gives.
\<close>

definition HasPrefix :: "string \<Rightarrow> string \<Rightarrow> bool" where
  "HasPrefix s pre = prefix pre s"

definition HasSuffix :: "string \<Rightarrow> string \<Rightarrow> bool" where
  "HasSuffix s suf = suffix suf s"

text \<open>\<open>strings.Contains(s, substr)\<close>: \<open>substr\<close> starts at some position of \<open>s\<close>.\<close>

fun Contains :: "string \<Rightarrow> string \<Rightarrow> bool" where
  "Contains [] substr = (substr = [])"
| "Contains (c # cs) substr = (HasPrefix (c # cs) substr \<or> Contains cs substr)"

text \<open>
  \<open>strings.ReplaceAll(s, old, new)\<close> replaces the non-overlapping occurrences of
  \<open>old\<close>, found from left to right. The program calls it with non-empty literals for
  \<open>old\<close> only; Go's treatment of an empty \<open>old\<close> (it inserts \<open>new\<close> around every
  rune) is not modelled, and the function leaves \<open>s\<close> as it is there.
\<close>

fun ReplaceAll :: "string \<Rightarrow> string \<Rightarrow> string \<Rightarrow> string" where
  "ReplaceAll [] old new = []"
| "ReplaceAll (c # cs) old new =
     (if old \<noteq> [] \<and> HasPrefix (c # cs) old
      then new @ ReplaceAll (drop (length old) (c # cs)) old new
      else c # ReplaceAll cs old new)"

text \<open>\<open>strings.TrimSuffix(s, suffix)\<close> removes one trailing copy of \<open>suffix\<close>, if there is one.\<close>

definition TrimSuffix :: "string \<Rightarrow> string \<Rightarrow> string" where
  "TrimSuffix s suf = (if HasSuffix s suf then take (length s - length suf) s else s)"

text \<open>\<open>strings.TrimRight(s, cutset)\<close> removes every trailing byte that is in \<open>cutset\<close>.\<close>

definition TrimRight :: "string \<Rightarrow> string \<Rightarrow> string" where
  "TrimRight s cutset = rev (dropWhile (\<lambda>c. c \<in> set cutset) (rev s))"

text \<open>
  \<open>regexp.MustCompile("&+").ReplaceAllString(url, "&")\<close>: every maximal run of
  ampersands is replaced by one ampersand.
\<close>

function amps_ReplaceAllString :: "string \<Rightarrow> string" where
  "amps_ReplaceAllString [] = []"
| "amps_ReplaceAllString (c # cs) =
     (if c = CHR ''&''
      then CHR ''&'' # amps_ReplaceAllString (dropWhile (\<lambda>d. d = CHR ''&'') cs)
      else c # amps_ReplaceAllString cs)"
  by pat_completeness auto
termination
  by (relation "measure length") (auto simp: less_Suc_eq_le length_dropWhile_le)

section \<open>URL canonicalisation\<close>

text \<open>\<open>CleanURL\<close>, statement by statement.\<close>

definition CleanURL :: "string \<Rightarrow> string" where
  "CleanURL url0 =
     (let url1 = ReplaceAll url0 ''http://'' ''https://'';
          url2 = TrimSuffix url1 ''&a'';
          url3 = ReplaceAll url2 ''feature=g-u'' [];
          url4 = ReplaceAll url3 ''feature=youtu.be'' [];
          url5 = ReplaceAll url4 ''feature=youtube_gdata'' [];
          url6 = amps_ReplaceAllString url5;
          url7 = TrimRight url6 ''&'';
          url8 = TrimRight url7 ''/''
      in url8)"

section \<open>Formatting (package fmt)\<close>

text \<open>\<open>%d\<close>: an integer in decimal.\<close>

fun digits :: "nat \<Rightarrow> string" where
  "digits n =
     (if n < 10 then [char_of (48 + n)]
      else digits (n div 10) @ [char_of (48 + n mod 10)])"

definition Itoa :: "int \<Rightarrow> string" where
  "Itoa i = (if i < 0 then CHR ''-'' # digits (nat (- i)) else digits (nat i))"

text \<open>
  \<open>%q\<close> is \<open>strconv.Quote\<close>: the string between double quotes, with a backslash before
  every double quote and backslash, the control characters written as escapes, and the
  printable characters as they are. The ASCII bytes are modelled exactly. A byte from 0x80
  on is written as Go writes a byte that is not part of a valid UTF-8 sequence
  (\<open>\xNN\<close>); Go keeps a valid multi-byte sequence as it is when \<open>unicode.IsPrint\<close>
  accepts the rune, which depends on the Unicode tables and is not modelled.
\<close>

definition hex_digit :: "nat \<Rightarrow> char" where
  "hex_digit n = ''0123456789abcdef'' ! (n mod 16)"

definition backslash :: char where
  "backslash = CHR 0x5C"

definition dquote :: char where
  "dquote = CHR 0x22"

definition appendEscapedRune :: "char \<Rightarrow> string" where
  "appendEscapedRune c =
     (let n = (of_char c :: nat) in
      if c = dquote \<or> c = backslash then [backslash, c]
      else if 32 \<le> n \<and> n < 127 then [c]
      else if n = 7 then [backslash, CHR ''a'']
      else if n = 8 then [backslash, CHR ''b'']
      else if n = 12 then [backslash, CHR ''f'']
      else if n = 10 then [backslash, CHR ''n'']
      else if n = 13 then [backslash, CHR ''r'']
      else if n = 9 then [backslash, CHR ''t'']
      else if n = 11 then [backslash, CHR ''v'']
      else [backslash, CHR ''x'', hex_digit (n div 16), hex_digit n])"

definition Quote :: "string \<Rightarrow> string" where
  "Quote s = dquote # concat (map appendEscapedRune s) @ [dquote]"

section \<open>Package api\<close>

subsection \<open>Data\<close>

record authInfo =
  ConsumerKey :: string
  AccessToken :: string

text \<open>\<open>Client\<close> embeds \<open>authInfo\<close> and has no other field.\<close>

type_synonym Client = authInfo

definition NewClient :: "string \<Rightarrow> string \<Rightarrow> Client" where
  "NewClient consumerKey accessToken =
     \<lparr>ConsumerKey = consumerKey, AccessToken = accessToken\<rparr>"

record Action =
  Action :: string
  ItemID :: int

definition NewArchiveAction :: "int \<Rightarrow> Action" where
  "NewArchiveAction itemID = \<lparr>Action = ''archive'', ItemID = itemID\<rparr>"

definition NewDeleteAction :: "int \<Rightarrow> Action" where
  "NewDeleteAction itemID = \<lparr>Action = ''delete'', ItemID = itemID\<rparr>"

text \<open>
  \<open>ActionErrors\<close> is a slice of arbitrary decoded JSON values; the program never reads
  it, and each value is kept as its JSON text.
\<close>

record ModifyResult =
  ActionResults :: "bool list"
  ActionErrors :: "string list"
  Status :: int

record modifyAPIOptionsWithAuth =
  Actions :: "Action list"
  auth :: authInfo

text \<open>
  An \<open>http.Response\<close>, as far as the program reads it: the status line (Go's field
  \<open>Status\<close>, named \<open>StatusLine\<close> here because \<open>ModifyResult\<close> has a field \<open>Status\<close>),
  the status code, the headers, what reading the body to its end gives (the bytes read and
  the error, if any), and the URL of the request that produced the response
  (\<open>Request.URL.String()\<close>, the last URL of a chain of redirects).
\<close>

record Response =
  StatusLine :: string
  StatusCode :: int
  Header :: "(string \<times> string list) list"
  Body :: "string \<times> string option"
  Request_URL :: string

text \<open>
  \<open>Header.Get(key)\<close>: the first value stored under the canonical form of \<open>key\<close>, or the
  empty string. Every key the program asks for is written in its canonical form.
\<close>

definition Header_Get :: "(string \<times> string list) list \<Rightarrow> string \<Rightarrow> string" where
  "Header_Get h key =
     (case map_of h key of None \<Rightarrow> [] | Some [] \<Rightarrow> [] | Some (v # _) \<Rightarrow> v)"

subsection \<open>doJSON and PostJSON\<close>

text \<open>
  The text of the error for a status other than 200: the format string of \<open>fmt.Errorf\<close>
  with its nine arguments.
\<close>

definition status_error :: "Response \<Rightarrow> string" where
  "status_error resp =
     ''got response '' @ Itoa (StatusCode resp)
     @ ''; X-Error='' @ Quote (Header_Get (Header resp) ''X-Error'')
     @ ''; X-Error-Code='' @ Quote (Header_Get (Header resp) ''X-Error-Code'')
     @ ''; X-Limit-User-Limit='' @ Quote (Header_Get (Header resp) ''X-Limit-User-Limit'')
     @ ''; X-Limit-User-Remaining='' @ Quote (Header_Get (Header resp) ''X-Limit-User-Remaining'')
     @ ''; X-Limit-User-Reset='' @ Quote (Header_Get (Header resp) ''X-Limit-User-Reset'')
     @ ''; X-Limit-Key-Limit='' @ Quote (Header_Get (Header resp) ''X-Limit-Key-Limit'')
     @ ''; X-Limit-Key-Remaining='' @ Quote (Header_Get (Header resp) ''X-Limit-Key-Remaining'')
     @ ''; X-Limit-Key-Reset='' @ Quote (Header_Get (Header resp) ''X-Limit-Key-Reset'')"

text \<open>
  \<open>doJSON\<close> returns an error and fills \<open>res\<close> through the pointer it is given; the model
  returns \<open>Inl\<close> the error text, or \<open>Inr\<close> the decoded value. Its first argument is
  what \<open>DefaultClient.Do(req)\<close> gave: a transport error (\<open>Inl\<close>) or a response. Its
  second argument is the JSON decoder for the type of \<open>res\<close>, applied to the body.
\<close>

definition doJSON ::
  "string + Response \<Rightarrow> (string \<times> string option \<Rightarrow> string + 'r) \<Rightarrow> string + 'r" where
  "doJSON done decode =
     (case done of
        Inl err \<Rightarrow> Inl err
      | Inr resp \<Rightarrow>
          if StatusCode resp \<noteq> 200 then Inl (status_error resp)
          else decode (Body resp))"

text \<open>
  \<open>PostJSON(action, data, res)\<close> marshals \<open>data\<close>, builds the POST request to
  \<open>Origin + action\<close> and hands it to \<open>doJSON\<close>. Marshalling the structures of this
  package and building a request for a constant URL do not fail. \<open>send\<close> is the remote
  side: what \<open>DefaultClient.Do\<close> gives for the POST of \<open>data\<close> to a URL.
\<close>

definition Origin :: string where
  "Origin = ''https://getpocket.com''"

definition PostJSON ::
  "(string \<Rightarrow> 'd \<Rightarrow> string + Response) \<Rightarrow> string \<Rightarrow> 'd
     \<Rightarrow> (string \<times> string option \<Rightarrow> string + 'r) \<Rightarrow> string + 'r" where
  "PostJSON send action data decode = doJSON (send (Origin @ action) data) decode"

section \<open>The process and its surroundings\<close>

text \<open>
  Modelled from the spec: \<open>api.RetrieveOption\<close> and \<open>api.Item\<close>, whose declarations are in
  a file of package \<open>api\<close> that is missing. The option carries the domain, the search
  query, the tag and the sort order, in this order; an item has the identifier, the sort
  order and the URL (the result of its method \<open>URL()\<close>) that \<open>commandList\<close> reads.
\<close>

datatype RetrieveOption = RetrieveOption string string string string

record Item =
  Item_ItemID :: int
  Item_SortId :: int
  Item_URL :: string

text \<open>
  What the process does to the outside, in order: writes to standard output and standard
  error, messages of package \<open>log\<close>, calls of \<open>confirm\<close>, HTTP requests, the retrieval
  of the list, and commands run.
\<close>

datatype event =
    Stdout string
  | Stderr string
  | Log string
  | Confirm string
  | Retrieve RetrieveOption
  | Post string modifyAPIOptionsWithAuth
  | Head string
  | Get string
  | Run "string list"

text \<open>
  The surroundings answer each request; an answer may depend on everything that happened
  before, so each function takes the events so far.
  \<^item> \<open>api_Retrieve\<close>: \<open>Client.Retrieve\<close> (missing from the sources): an error, or the
    items of \<open>res.List\<close> in the order in which the \<open>range\<close> loop visits them;
  \<^item> \<open>api_send\<close>: the remote API, see \<open>PostJSON\<close>;
  \<^item> \<open>decode_ModifyResult\<close>: the JSON decoder for a \<open>ModifyResult\<close>;
  \<^item> \<open>http_Head\<close>, \<open>http_Get\<close>: the two results of \<open>http.Head\<close> and \<open>http.Get\<close>,
    a response pointer that may be nil and an error that may be nil;
  \<^item> \<open>template_Parse\<close>: the error of parsing a format template, if any;
  \<^item> \<open>template_Execute\<close>: the text a template writes for an item, or its error; the
    template is \<open>None\<close> for \<open>defaultItemTemplate\<close>, or the parsed format;
  \<^item> \<open>firefox_Output\<close>: the error of running the browser, if any, with the standard
    error output when the error is an \<open>*exec.ExitError\<close>;
  \<^item> \<open>strings_TrimSpace\<close>, \<open>strings_ToLower\<close>: the two functions of package
    \<open>strings\<close> that \<open>confirm\<close> applies to a line; they follow the Unicode tables of
    the Go library.
\<close>

record env =
  api_Retrieve :: "event list \<Rightarrow> RetrieveOption \<Rightarrow> string + Item list"
  api_send :: "event list \<Rightarrow> string \<Rightarrow> modifyAPIOptionsWithAuth \<Rightarrow> string + Response"
  decode_ModifyResult :: "string \<times> string option \<Rightarrow> string + ModifyResult"
  http_Head :: "event list \<Rightarrow> string \<Rightarrow> Response option \<times> string option"
  http_Get :: "event list \<Rightarrow> string \<Rightarrow> Response option \<times> string option"
  template_Parse :: "string \<Rightarrow> string option"
  template_Execute :: "string option \<Rightarrow> Item \<Rightarrow> string + string"
  firefox_Output :: "event list \<Rightarrow> string \<Rightarrow> (string \<times> string option) option"
  strings_TrimSpace :: "string \<Rightarrow> string"
  strings_ToLower :: "string \<Rightarrow> string"

text \<open>
  The state of the run: the events so far, and the lines still to come on standard input
  (each is what one \<open>ReadString('\n')\<close> returns; after the last one, reading gives
  \<open>io.EOF\<close>).
\<close>

record world =
  trace :: "event list"
  stdin :: "string list"

definition emit :: "event \<Rightarrow> world \<Rightarrow> world" where
  "emit ev w = w\<lparr>trace := trace w @ [ev]\<rparr>"

text \<open>
  A call returns a value, panics (with the text of the panic), or ends the process
  (\<open>os.Exit\<close>, \<open>log.Fatal\<close>) with an exit code.
\<close>

datatype 'a exec = Returned 'a | Panic string | Exit int

definition andThen ::
  "'a exec \<times> world \<Rightarrow> ('a \<Rightarrow> world \<Rightarrow> 'b exec \<times> world) \<Rightarrow> 'b exec \<times> world" where
  "andThen r f =
     (case r of
        (Returned x, w) \<Rightarrow> f x w
      | (Panic msg, w) \<Rightarrow> (Panic msg, w)
      | (Exit code, w) \<Rightarrow> (Exit code, w))"

definition nil_dereference :: string where
  "nil_dereference = ''runtime error: invalid memory address or nil pointer dereference''"

subsection \<open>Modify\<close>

text \<open>
  The loop over \<open>res.ActionResults\<close>: \<open>i\<close> is the index, the list holds the results from
  \<open>i\<close> on. \<open>actions[i]\<close> is read for a failed result only, and panics when \<open>i\<close> is not
  an index of \<open>actions\<close>. An action is passed by pointer; every caller builds it with
  \<open>NewArchiveAction\<close> or \<open>NewDeleteAction\<close>, and the model passes the action itself.
\<close>

fun Modify_loop :: "Action list \<Rightarrow> nat \<Rightarrow> bool list \<Rightarrow> world \<Rightarrow> unit exec \<times> world" where
  "Modify_loop actions i [] w = (Returned (), w)"
| "Modify_loop actions i (r # rs) w =
     (if \<not> r then
        (if i < length actions
         then Modify_loop actions (Suc i) rs
                (emit (Log (''Action '' @ Quote (Action (actions ! i)) @ '' on item ''
                            @ Itoa (ItemID (actions ! i)) @ '' failed'')) w)
         else (Panic (''runtime error: index out of range ['' @ Itoa (int i)
                      @ ''] with length '' @ Itoa (int (length actions))), w))
      else Modify_loop actions (Suc i) rs w)"

text \<open>
  \<open>Modify\<close> returns \<open>(nil, err)\<close> or \<open>(res, nil)\<close> and nothing else: \<open>Inl err\<close> stands
  for the first, \<open>Inr res\<close> for the second.
\<close>

definition Modify ::
  "env \<Rightarrow> Client \<Rightarrow> Action list \<Rightarrow> world \<Rightarrow> (string + ModifyResult) exec \<times> world" where
  "Modify e c actions w =
     (let data = \<lparr>Actions = actions, auth = c\<rparr>;
          w1 = emit (Post (Origin @ ''/v3/send'') data) w
      in case PostJSON (api_send e (trace w)) ''/v3/send'' data (decode_ModifyResult e) of
           Inl err \<Rightarrow> (Returned (Inl err), w1)
         | Inr res \<Rightarrow>
             andThen (Modify_loop actions 0 (ActionResults res) w1)
               (\<lambda>_ w2. (Returned (Inr res), w2)))"

section \<open>The command-line client\<close>

subsection \<open>confirm\<close>

text \<open>
  The loop of \<open>confirm\<close>: print the question, read a line, and return on \<open>y\<close>/\<open>yes\<close>
  and \<open>n\<close>/\<open>no\<close>, leave the process on \<open>q\<close>/\<open>quit\<close> and on a read error, ask again
  on anything else. The recursion is on the lines still to be read. The line is compared
  after \<open>strings.ToLower(strings.TrimSpace(response))\<close>, two functions of the Go
  library that the surroundings provide.
\<close>

fun confirm_loop :: "env \<Rightarrow> string \<Rightarrow> string list \<Rightarrow> event list \<Rightarrow> bool exec \<times> world" where
  "confirm_loop e s [] tr =
     (Exit 1, \<lparr>trace = tr @ [Stdout (s @ '' [y/n]: ''), Stderr ''EOF\<newline>''], stdin = []\<rparr>)"
| "confirm_loop e s (line # rest) tr =
     (let tr1 = tr @ [Stdout (s @ '' [y/n]: '')];
          response = strings_ToLower e (strings_TrimSpace e line)
      in if response = ''y'' \<or> response = ''yes''
           then (Returned True, \<lparr>trace = tr1, stdin = rest\<rparr>)
         else if response = ''n'' \<or> response = ''no''
           then (Returned False, \<lparr>trace = tr1, stdin = rest\<rparr>)
         else if response = ''q'' \<or> response = ''quit''
           then (Exit 1, \<lparr>trace = tr1 @ [Stderr ''Quitting. Bye!\<newline>''], stdin = rest\<rparr>)
         else confirm_loop e s rest tr1)"

text \<open>
  One call of \<open>confirm\<close> is marked by one event \<open>Confirm\<close>, followed by what its loop
  prints.
\<close>

definition confirm :: "env \<Rightarrow> string \<Rightarrow> world \<Rightarrow> bool exec \<times> world" where
  "confirm e s w = confirm_loop e s (stdin w) (trace w @ [Confirm s])"

subsection \<open>commandList\<close>

record Config =
  FormatTemplate :: string
  Domain :: string
  SearchQuery :: string
  Tag :: string
  Sort :: string
  Cull :: bool
  DeleteAll :: bool

text \<open>
  \<open>sort.Sort(bySortID(items))\<close>. For a slice of at most 12 elements \<open>sort.Sort\<close> is the
  insertion sort below: the element at \<open>i\<close> is swapped to the left while it is less than
  its left neighbour (\<open>Less\<close> compares \<open>SortId\<close> with \<open><\<close>). The sorted part is held
  in reverse, its last element first. For a longer slice Go gives the same result when the
  sort orders are distinct; the order of items with equal sort order is then not specified.
\<close>

fun insertionSort_step :: "Item \<Rightarrow> Item list \<Rightarrow> Item list" where
  "insertionSort_step x [] = [x]"
| "insertionSort_step x (y # ys) =
     (if Item_SortId x < Item_SortId y then y # insertionSort_step x ys else x # y # ys)"

definition sort_bySortID :: "Item list \<Rightarrow> Item list" where
  "sort_bySortID items = rev (foldl (\<lambda>sorted x. insertionSort_step x sorted) [] items)"

definition StatusNotFound :: int where
  "StatusNotFound = 404"

definition StatusPermanentRedirect :: int where
  "StatusPermanentRedirect = 308"

text \<open>
  Deleting one item and reporting the error, as the loop does in two places:
  \<open>client.Modify(action)\<close>, then \<open>fmt.Printf("%#v, %v\n", res, err)\<close> when \<open>err\<close> is not
  nil; \<open>res\<close> is then the nil pointer, which \<open>%#v\<close> prints with its type.
\<close>

definition delete_item :: "env \<Rightarrow> Client \<Rightarrow> Item \<Rightarrow> world \<Rightarrow> unit exec \<times> world" where
  "delete_item e client item w =
     andThen (Modify e client [NewDeleteAction (Item_ItemID item)] w)
       (\<lambda>r w1. case r of
                 Inl err \<Rightarrow>
                   (Returned (), emit (Stdout (''(*api.ModifyResult)(nil), '' @ err @ ''\<newline>'')) w1)
               | Inr res \<Rightarrow> (Returned (), w1))"

text \<open>
  The probe of the cull branch: \<open>http.Head\<close>, then \<open>http.Get\<close> when that fails, then
  the reading of the body. The result is the pair \<open>(chk, err)\<close> as the statements after
  it see it.
\<close>

definition probe_request ::
  "env \<Rightarrow> string \<Rightarrow> world \<Rightarrow> (Response option \<times> string option) \<times> world" where
  "probe_request e url w =
     (let w1 = emit (Head url) w
      in case http_Head e (trace w) url of
           (chk, None) \<Rightarrow> ((chk, None), w1)
         | (chk, Some err) \<Rightarrow>
             (let w2 = emit (Stdout (''\<newline>Got an err when HEADing: '' @ err
                                      @ '', GETting instead...\<newline>'')) w1;
                  w3 = emit (Get url) w2
              in case http_Get e (trace w2) url of
                   (chk', None) \<Rightarrow> ((chk', None), w3)
                 | (chk', Some err') \<Rightarrow>
                     ((chk', Some err'), emit (Stdout (''\<newline>'' @ err' @ ''\<newline>'')) w3)))"

definition probe_body ::
  "Response option \<times> string option \<Rightarrow> world \<Rightarrow> (Response option \<times> string option) exec \<times> world" where
  "probe_body r w =
     (case r of
        (chk, None) \<Rightarrow> (Returned (chk, None), w)
      | (chk, Some err) \<Rightarrow>
          if \<not> HasSuffix err '': EOF'' then
            (case chk of
               None \<Rightarrow> (Panic nil_dereference, w)
             | Some resp \<Rightarrow>
                 (case Body resp of
                    (body, rerr) \<Rightarrow>
                      if rerr \<noteq> None \<and>
                         (Contains body ''isn't available anymore'' \<or>
                          Contains body ''this page doesn'')
                      then (Returned (Some (resp\<lparr>StatusLine := ''Not Available'',
                                                 StatusCode := StatusNotFound\<rparr>), Some err), w)
                      else (Returned (chk, Some err), w)))
          else (Returned (chk, Some err), w))"

definition probe ::
  "env \<Rightarrow> string \<Rightarrow> world \<Rightarrow> (Response option \<times> string option) exec \<times> world" where
  "probe e url w = (case probe_request e url w of (r, w1) \<Rightarrow> probe_body r w1)"

text \<open>Running the browser on the final URL; a failure ends the process (\<open>log.Fatalf\<close>).\<close>

definition open_in_browser :: "env \<Rightarrow> string \<Rightarrow> world \<Rightarrow> unit exec \<times> world" where
  "open_in_browser e fin w =
     (let w1 = emit (Run [''firefox'', ''--new-tab'', fin]) w
      in case firefox_Output e (trace w) fin of
           None \<Rightarrow> (Returned (), w1)
         | Some (err, Some exit_stderr) \<Rightarrow>
             (Exit 1, emit (Log (''Failed to run firefox: '' @ err @ '', '' @ exit_stderr)) w1)
         | Some (err, None) \<Rightarrow>
             (Exit 1, emit (Log (''Failed to run firefox: '' @ err)) w1))"

text \<open>
  What follows the probe: the status is printed and the operator is offered the final URL
  when there is no error and the status code is at most 308; otherwise the status is
  printed unless the error ends in \<open>: EOF\<close>.
\<close>

definition report_status ::
  "env \<Rightarrow> Item \<Rightarrow> Response option \<times> string option \<Rightarrow> world \<Rightarrow> unit exec \<times> world" where
  "report_status e item r w =
     (case r of
        (None, None) \<Rightarrow> (Panic nil_dereference, w)
      | (Some chk, None) \<Rightarrow>
          if StatusCode chk \<le> StatusPermanentRedirect then
            (let w1 = emit (Stdout ('' '' @ StatusLine chk @ ''\<newline>'')) w;
                 fin = Request_URL chk;
                 openPrompt = (if fin \<noteq> Item_URL item then ''Open '' @ fin @ ''?'' else ''Open?'')
             in andThen (confirm e openPrompt w1)
                  (\<lambda>yes w2. if yes then open_in_browser e fin w2 else (Returned (), w2)))
          else (Returned (), emit (Stdout (''\<newline>Status was '' @ StatusLine chk @ ''\<newline>'')) w)
      | (chk, Some err) \<Rightarrow>
          if \<not> HasSuffix err '': EOF'' then
            (case chk of
               None \<Rightarrow> (Panic nil_dereference, w)
             | Some resp \<Rightarrow>
                 (Returned (), emit (Stdout (''\<newline>Status was '' @ StatusLine resp @ ''\<newline>'')) w))
          else (Returned (), w))"

text \<open>The cull branch for one item: probe, report, and the question whether to delete.\<close>

definition cull_item :: "env \<Rightarrow> Client \<Rightarrow> Item \<Rightarrow> world \<Rightarrow> unit exec \<times> world" where
  "cull_item e client item w =
     andThen (probe e (Item_URL item) w)
       (\<lambda>r w1. andThen (report_status e item r w1)
          (\<lambda>_ w2. andThen (confirm e ''Delete?'' w2)
             (\<lambda>yes w3. if yes then delete_item e client item w3 else (Returned (), w3))))"

text \<open>
  The loop over the sorted items: \<open>i\<close> is the index, \<open>seenURLs\<close> the set of the cleaned
  URLs seen so far. It returns the set at the end of the loop.
\<close>

fun commandList_loop ::
  "env \<Rightarrow> Config \<Rightarrow> Client \<Rightarrow> string option \<Rightarrow> nat \<Rightarrow> nat \<Rightarrow> Item list \<Rightarrow> string set
     \<Rightarrow> world \<Rightarrow> string set exec \<times> world" where
  "commandList_loop e conf client itemTemplate itemsLen i [] seenURLs w =
     (Returned seenURLs, w)"
| "commandList_loop e conf client itemTemplate itemsLen i (item # rest) seenURLs w =
     (let w1 = emit (Stdout (Itoa (int i + 1) @ ''/'' @ Itoa (int itemsLen) @ '' '')) w
      in case template_Execute e itemTemplate item of
           Inl err \<Rightarrow> (Panic err, w1)
         | Inr text \<Rightarrow>
             (let w2 = emit (Stdout text) w1;
                  url = CleanURL (Item_URL item)
              in if url \<in> seenURLs then
                   andThen (delete_item e client item
                              (emit (Stdout ''\<newline>Item already seen. Deleting...\<newline>'') w2))
                     (\<lambda>_ w3. commandList_loop e conf client itemTemplate itemsLen (Suc i) rest
                                seenURLs (emit (Stdout ''\<newline>'') w3))
                 else
                   andThen (if Cull conf then cull_item e client item w2 else (Returned (), w2))
                     (\<lambda>_ w3. commandList_loop e conf client itemTemplate itemsLen (Suc i) rest
                                (insert url seenURLs) (emit (Stdout ''\<newline>'') w3))))"

text \<open>The delete-all branch: one question, then one \<open>Modify\<close> with a delete action per item.\<close>

definition delete_all :: "env \<Rightarrow> Client \<Rightarrow> Item list \<Rightarrow> world \<Rightarrow> unit exec \<times> world" where
  "delete_all e client items w =
     andThen (confirm e (''Really delete '' @ Itoa (int (length items)) @ '' items?'') w)
       (\<lambda>yes w1.
          if yes then
            andThen (Modify e client (map (\<lambda>item. NewDeleteAction (Item_ItemID item)) items) w1)
              (\<lambda>r w2. case r of
                        Inl err \<Rightarrow>
                          (Returned (),
                           emit (Stdout (''(*api.ModifyResult)(nil), '' @ err @ ''\<newline>'')) w2)
                      | Inr res \<Rightarrow> (Returned (), w2))
          else (Returned (), w1))"

definition commandList :: "env \<Rightarrow> Config \<Rightarrow> Client \<Rightarrow> world \<Rightarrow> unit exec \<times> world" where
  "commandList e conf client w =
     (let options = RetrieveOption (Domain conf) (SearchQuery conf) (Tag conf) (Sort conf);
          w1 = emit (Retrieve options) w
      in case api_Retrieve e (trace w) options of
           Inl err \<Rightarrow> (Panic err, w1)
         | Inr items \<Rightarrow>
             (case (if FormatTemplate conf \<noteq> [] then template_Parse e (FormatTemplate conf)
                    else None) of
                Some err \<Rightarrow> (Panic err, w1)
              | None \<Rightarrow>
                  (let itemTemplate =
                         (if FormatTemplate conf \<noteq> [] then Some (FormatTemplate conf) else None)
                   in if DeleteAll conf then delete_all e client items w1
                      else andThen (commandList_loop e conf client itemTemplate (length items) 0
                                      (sort_bySortID items) {} w1)
                             (\<lambda>_ w2. (Returned (), w2)))))"

subsection \<open>obtainAccessToken\<close>

text \<open>
  Modelled from the spec: \<open>auth.Authorization\<close>, the credential of package \<open>auth\<close>,
  which is missing from the sources; \<open>main\<close> reads its access token.
\<close>

record Authorization =
  Authorization_AccessToken :: string

text \<open>
  The functions of package \<open>auth\<close> and the address of the local listener:
  \<open>ObtainRequestToken\<close> gives an error or a request token, \<open>ObtainAccessToken\<close> a
  credential pointer and an error, as Go returns them.
\<close>

record auth_env =
  ts_URL :: string
  auth_ObtainRequestToken :: "string \<Rightarrow> string \<Rightarrow> string + string"
  auth_GenerateAuthorizationURL :: "string \<Rightarrow> string \<Rightarrow> string"
  auth_ObtainAccessToken :: "string \<Rightarrow> string \<Rightarrow> Authorization option \<times> string option"

text \<open>
  \<open>obtainAccessToken\<close> runs next to the handlers of the listener, one goroutine for each
  request, and meets them on the channel \<open>ch\<close>. It is a transition system. The main flow
  is at one of these places: before \<open>auth.ObtainRequestToken\<close>; at the receive
  \<open><-ch\<close> (holding the request token); before \<open>auth.ObtainAccessToken\<close>; at the
  deferred \<open>ts.Close()\<close> (holding the values to return); returned.
\<close>

datatype main_pc =
    AtObtainRequestToken
  | AtReceive string
  | AtObtainAccessToken string
  | AtClose "Authorization option \<times> string option"
  | Finished "Authorization option \<times> string option"

datatype auth_event =
    Requested string
  | Answered_NotFound
  | Answered_Authorized
  | Signalled
  | Called_ObtainRequestToken
  | Printed string
  | Called_ObtainAccessToken string

text \<open>
  \<open>handling\<close> holds the paths of the requests whose handler has been entered and has not
  yet tested the path; \<open>sending\<close> counts the handlers that wait in \<open>ch <- struct{}{}\<close>
  (the channel has no buffer, so a send ends only together with a receive).
\<close>

record auth_state =
  main_at :: main_pc
  handling :: "string list"
  sending :: nat
  events :: "auth_event list"

definition auth_init :: auth_state where
  "auth_init = \<lparr>main_at = AtObtainRequestToken, handling = [], sending = 0, events = []\<rparr>"

definition listening :: "main_pc \<Rightarrow> bool" where
  "listening pc = (case pc of AtClose _ \<Rightarrow> False | Finished _ \<Rightarrow> False | _ \<Rightarrow> True)"

inductive auth_step :: "auth_env \<Rightarrow> string \<Rightarrow> auth_state \<Rightarrow> auth_state \<Rightarrow> bool"
  for e :: auth_env and consumerKey :: string where
  request_arrives:
    "listening (main_at s) \<Longrightarrow>
     auth_step e consumerKey s
       (s\<lparr>handling := handling s @ [path], events := events s @ [Requested path]\<rparr>)"
| handler_favicon:
    "handling s = before @ ''/favicon.ico'' # after \<Longrightarrow>
     auth_step e consumerKey s
       (s\<lparr>handling := before @ after, events := events s @ [Answered_NotFound]\<rparr>)"
| handler_authorized:
    "handling s = before @ path # after \<Longrightarrow> path \<noteq> ''/favicon.ico'' \<Longrightarrow>
     auth_step e consumerKey s
       (s\<lparr>handling := before @ after, sending := Suc (sending s),
          events := events s @ [Answered_Authorized]\<rparr>)"
| request_token_error:
    "main_at s = AtObtainRequestToken \<Longrightarrow>
     auth_ObtainRequestToken e consumerKey (ts_URL e) = Inl err \<Longrightarrow>
     auth_step e consumerKey s
       (s\<lparr>main_at := AtClose (None, Some err),
          events := events s @ [Called_ObtainRequestToken]\<rparr>)"
| request_token:
    "main_at s = AtObtainRequestToken \<Longrightarrow>
     auth_ObtainRequestToken e consumerKey (ts_URL e) = Inr requestToken \<Longrightarrow>
     auth_step e consumerKey s
       (s\<lparr>main_at := AtReceive requestToken,
          events := events s @ [Called_ObtainRequestToken,
                                Printed (auth_GenerateAuthorizationURL e requestToken (ts_URL e)
                                         @ ''\<newline>'')]\<rparr>)"
| receive:
    "main_at s = AtReceive requestToken \<Longrightarrow> sending s = Suc n \<Longrightarrow>
     auth_step e consumerKey s
       (s\<lparr>main_at := AtObtainAccessToken requestToken, sending := n,
          events := events s @ [Signalled]\<rparr>)"
| exchange:
    "main_at s = AtObtainAccessToken requestToken \<Longrightarrow>
     auth_step e consumerKey s
       (s\<lparr>main_at := AtClose (auth_ObtainAccessToken e consumerKey requestToken),
          events := events s @ [Called_ObtainAccessToken requestToken]\<rparr>)"
| close:
    "main_at s = AtClose result \<Longrightarrow> handling s = [] \<Longrightarrow> sending s = 0 \<Longrightarrow>
     auth_step e consumerKey s (s\<lparr>main_at := Finished result\<rparr>)"

text \<open>The states a run of \<open>obtainAccessToken\<close> can reach.\<close>

inductive auth_reachable :: "auth_env \<Rightarrow> string \<Rightarrow> auth_state \<Rightarrow> bool"
  for e :: auth_env and consumerKey :: string where
  start: "auth_reachable e consumerKey auth_init"
| step: "auth_reachable e consumerKey s \<Longrightarrow> auth_step e consumerKey s s' \<Longrightarrow>
         auth_reachable e consumerKey s'"

fun qualifying :: "auth_event \<Rightarrow> bool" where
  "qualifying (Requested path) = (path \<noteq> ''/favicon.ico'')"
| "qualifying _ = False"

fun is_Signalled :: "auth_event \<Rightarrow> bool" where
  "is_Signalled Signalled = True"
| "is_Signalled _ = False"

subsection \<open>restoreAccessToken\<close>

text \<open>
  The files: \<open>os_Open\<close> gives an error or the content of the file, \<open>os_Create\<close> the
  error of creating it, if any; the two JSON functions give the decoded credential or the
  error of the decoder, and the error of encoding and writing, if any.
  \<open>call_obtainAccessToken\<close> is what a call of \<open>obtainAccessToken\<close> gives: \<open>None\<close>
  when it never returns (no qualifying request arrives), or the pair it returns.
\<close>

record files_env =
  os_Open :: "string \<Rightarrow> string + string"
  json_Decode :: "string \<Rightarrow> string + Authorization"
  os_Create :: "string \<Rightarrow> string option"
  json_Encode :: "string \<Rightarrow> Authorization option \<Rightarrow> string option"
  call_obtainAccessToken :: "string \<Rightarrow> (Authorization option \<times> string option) option"

definition loadJSONFromFile :: "files_env \<Rightarrow> string \<Rightarrow> string + Authorization" where
  "loadJSONFromFile f path =
     (case os_Open f path of Inl err \<Rightarrow> Inl err | Inr content \<Rightarrow> json_Decode f content)"

definition saveJSONToFile :: "files_env \<Rightarrow> string \<Rightarrow> Authorization option \<Rightarrow> string option" where
  "saveJSONToFile f path v =
     (case os_Create f path of Some err \<Rightarrow> Some err | None \<Rightarrow> json_Encode f path v)"

text \<open>
  \<open>restoreAccessToken\<close> returns a credential pointer and an error, both of which may be
  nil; the result is \<open>None\<close> when the call never returns. \<open>configDir\<close> is the global
  variable set by \<open>init\<close>, a clean path, so that \<open>filepath.Join\<close> puts one separator
  between it and the file name. The line printed by \<open>log.Println\<close> is the second
  component.
\<close>

definition restoreAccessToken ::
  "files_env \<Rightarrow> string \<Rightarrow> string \<Rightarrow> (Authorization option \<times> string option) option \<times> string list" where
  "restoreAccessToken f configDir consumerKey =
     (let authFile = configDir @ ''/auth.json''
      in case loadJSONFromFile f authFile of
           Inr accessToken \<Rightarrow> (Some (Some accessToken, None), [])
         | Inl err \<Rightarrow>
             (case call_obtainAccessToken f consumerKey of
                None \<Rightarrow> (None, [err])
              | Some (accessToken, Some err') \<Rightarrow> (Some (None, Some err'), [err])
              | Some (accessToken, None) \<Rightarrow>
                  (case saveJSONToFile f authFile accessToken of
                     Some err' \<Rightarrow> (Some (None, Some err'), [err])
                   | None \<Rightarrow> (Some (accessToken, None), [err]))))"

section \<open>Observations and sample runs\<close>

text \<open>The log line of \<open>Modify\<close> for a failed action, and the lines for a list of results.\<close>

definition failure_log :: "Action \<Rightarrow> event" where
  "failure_log a =
     Log (''Action '' @ Quote (Action a) @ '' on item '' @ Itoa (ItemID a) @ '' failed'')"

definition failure_logs :: "Action list \<Rightarrow> bool list \<Rightarrow> event list" where
  "failure_logs actions results =
     map (failure_log \<circ> fst) (filter (\<lambda>p. \<not> snd p) (zip actions results))"

text \<open>
  The headers that the error of \<open>doJSON\<close> shows. A character is plain when \<open>%q\<close>
  writes it as it is: printable ASCII other than the double quote and the backslash. An
  error text shows a header when it contains the value as \<open>%q\<close> writes it, and the
  value itself when all its characters are plain.
\<close>

definition error_headers :: "string list" where
  "error_headers =
     [''X-Error'', ''X-Error-Code'', ''X-Limit-User-Limit'', ''X-Limit-User-Remaining'',
      ''X-Limit-User-Reset'', ''X-Limit-Key-Limit'', ''X-Limit-Key-Remaining'',
      ''X-Limit-Key-Reset'']"

definition plain :: "char \<Rightarrow> bool" where
  "plain c =
     (32 \<le> (of_char c :: nat) \<and> (of_char c :: nat) < 127 \<and> c \<noteq> dquote \<and> c \<noteq> backslash)"

definition shows_header :: "string \<Rightarrow> Response \<Rightarrow> string \<Rightarrow> bool" where
  "shows_header text resp key =
     (Contains text (Quote (Header_Get (Header resp) key)) \<and>
      (list_all plain (Header_Get (Header resp) key)
         \<longrightarrow> Contains text (Header_Get (Header resp) key)))"

text \<open>A response with status 403 and the given \<open>X-Error\<close> header.\<close>

definition forbidden :: "string \<Rightarrow> Response" where
  "forbidden xerror =
     \<lparr>StatusLine = ''403 Forbidden'', StatusCode = 403,
      Header = [(''X-Error'', [xerror]), (''X-Error-Code'', [''107'']),
                (''X-Limit-User-Remaining'', [''9999''])],
      Body = ([], None), Request_URL = ''https://getpocket.com/v3/send''\<rparr>"

definition quoted_error :: string where
  "quoted_error = ''invalid '' @ [dquote] @ ''consumer_key'' @ [dquote]"

text \<open>A decoder that is never reached when the status is not 200.\<close>

definition no_decoder :: "string \<times> string option \<Rightarrow> string + ModifyResult" where
  "no_decoder body = Inl ''unexpected end of JSON input''"

text \<open>
  What \<open>strings.TrimSpace\<close> and \<open>strings.ToLower\<close> give for a line of ASCII bytes: the
  white space is tab, line feed, vertical tab, form feed, carriage return and space, and
  the letters \<open>A\<close> to \<open>Z\<close> are lowered. The sample surroundings use them; all lines of
  the sample runs are ASCII.
\<close>

definition ascii_isSpace :: "char \<Rightarrow> bool" where
  "ascii_isSpace c = (c \<in> set [CHR 0x09, CHR 0x0A, CHR 0x0B, CHR 0x0C, CHR 0x0D, CHR 0x20])"

definition ascii_TrimSpace :: "string \<Rightarrow> string" where
  "ascii_TrimSpace s = rev (dropWhile ascii_isSpace (rev (dropWhile ascii_isSpace s)))"

definition ascii_toLower :: "char \<Rightarrow> char" where
  "ascii_toLower c =
     (let n = (of_char c :: nat) in if 65 \<le> n \<and> n \<le> 90 then char_of (n + 32) else c)"

definition ascii_ToLower :: "string \<Rightarrow> string" where
  "ascii_ToLower s = map ascii_toLower s"

text \<open>
  Sample surroundings: the retrieval gives \<open>items\<close>; the remote API answers every POST
  with status 200 and a body that decodes to the given action results; \<open>head\<close> and
  \<open>get\<close> answer the probes; every template parses and prints the URL of the item
  between angle brackets; the browser starts.
\<close>

definition example_env ::
  "Item list \<Rightarrow> bool list \<Rightarrow> (string \<Rightarrow> Response option \<times> string option)
     \<Rightarrow> (string \<Rightarrow> Response option \<times> string option) \<Rightarrow> env" where
  "example_env items results head get =
     \<lparr>api_Retrieve = (\<lambda>tr options. Inr items),
      api_send = (\<lambda>tr url data. Inr \<lparr>StatusLine = ''200 OK'', StatusCode = 200, Header = [],
                                        Body = ([], None), Request_URL = url\<rparr>),
      decode_ModifyResult =
        (\<lambda>body. Inr \<lparr>ActionResults = results, ActionErrors = [], Status = 1\<rparr>),
      http_Head = (\<lambda>tr. head),
      http_Get = (\<lambda>tr. get),
      template_Parse = (\<lambda>format. None),
      template_Execute = (\<lambda>format item. Inr (''<'' @ Item_URL item @ ''>'')),
      firefox_Output = (\<lambda>tr url. None),
      strings_TrimSpace = ascii_TrimSpace,
      strings_ToLower = ascii_ToLower\<rparr>"

text \<open>
  Answers to a probe: two transport errors, each with the nil response that \<open>net/http\<close>
  returns with an error (\<open>op\<close> is \<open>Head\<close> or \<open>Get\<close>), and a page with status 200
  whose body says that the resource is gone.
\<close>

definition no_such_host :: "string \<Rightarrow> string \<Rightarrow> Response option \<times> string option" where
  "no_such_host op url =
     (None, Some (op @ '' '' @ Quote url @ '': dial tcp: lookup a.com: no such host''))"

definition connection_closed :: "string \<Rightarrow> string \<Rightarrow> Response option \<times> string option" where
  "connection_closed op url = (None, Some (op @ '' '' @ Quote url @ '': EOF''))"

definition removed_response :: "string \<Rightarrow> Response" where
  "removed_response url =
     \<lparr>StatusLine = ''200 OK'', StatusCode = 200, Header = [],
      Body = (''Sorry, this video isn't available anymore.'', None),
      Request_URL = url\<rparr>"

definition removed_page :: "string \<Rightarrow> Response option \<times> string option" where
  "removed_page url = (Some (removed_response url), None)"

text \<open>The two items of the end-to-end scenario of the specification.\<close>

definition item1 :: Item where
  "item1 = \<lparr>Item_ItemID = 1, Item_SortId = 2, Item_URL = ''https://a.com/x''\<rparr>"

definition item2 :: Item where
  "item2 = \<lparr>Item_ItemID = 2, Item_SortId = 1, Item_URL = ''http://a.com/x''\<rparr>"

definition list_conf :: "bool \<Rightarrow> bool \<Rightarrow> Config" where
  "list_conf cull deleteAll =
     \<lparr>FormatTemplate = [], Domain = [], SearchQuery = [], Tag = [], Sort = [],
      Cull = cull, DeleteAll = deleteAll\<rparr>"

definition start :: "string list \<Rightarrow> world" where
  "start lines = \<lparr>trace = [], stdin = lines\<rparr>"

definition client0 :: Client where
  "client0 = NewClient ''key'' ''token''"







text \<open>
  Files for \<open>restoreAccessToken\<close>: no credential file yet, a handshake that succeeds
  with the credential \<open>obtained\<close>, and a configuration directory that cannot be written.
\<close>

definition obtained :: Authorization where
  "obtained = \<lparr>Authorization_AccessToken = ''token''\<rparr>"

definition readonly_files :: files_env where
  "readonly_files =
     \<lparr>os_Open = (\<lambda>path. Inl (''open '' @ path @ '': no such file or directory'')),
      json_Decode = (\<lambda>content. Inl ''EOF''),
      os_Create = (\<lambda>path. Some (''open '' @ path @ '': permission denied'')),
      json_Encode = (\<lambda>path v. None),
      call_obtainAccessToken = (\<lambda>consumerKey. Some (Some obtained, None))\<rparr>"

text \<open>
  A run of \<open>obtainAccessToken\<close>: the browser asks for the icon first, the request token
  is obtained, the operator approves (a request for \<open>/\<close>), the main flow receives the
  signal and exchanges the token.
\<close>

definition example_auth :: auth_env where
  "example_auth =
     \<lparr>ts_URL = ''http://127.0.0.1:40000'',
      auth_ObtainRequestToken = (\<lambda>consumerKey redirectURL. Inr ''request-token''),
      auth_GenerateAuthorizationURL =
        (\<lambda>requestToken redirectURL.
           ''https://getpocket.com/auth/authorize?request_token='' @ requestToken
           @ ''&redirect_uri='' @ redirectURL),
      auth_ObtainAccessToken = (\<lambda>consumerKey requestToken. (Some obtained, None))\<rparr>"

definition approved_run :: "auth_event list" where
  "approved_run =
     [Requested ''/favicon.ico'', Answered_NotFound, Called_ObtainRequestToken,
      Printed (''https://getpocket.com/auth/authorize?request_token=request-token''
               @ ''&redirect_uri=http://127.0.0.1:40000\<newline>''),
      Requested ''/'', Answered_Authorized, Signalled,
      Called_ObtainAccessToken ''request-token'']"

definition approved_state :: auth_state where
  "approved_state =
     \<lparr>main_at = AtClose (Some obtained, None), handling = [], sending = 0,
      events = approved_run\<rparr>"

text \<open>
  Two invariants of the transition system. \<open>accounted\<close>: every signal, delivered or
  waiting to be sent, and every handler that will send one, belongs to a request of its own
  whose path is not \<open>/favicon.ico\<close>. \<open>ordered\<close>: every call of
  \<open>auth.ObtainAccessToken\<close> comes after such a request.
\<close>

definition accounted :: "auth_state \<Rightarrow> bool" where
  "accounted s \<longleftrightarrow>
     length (filter is_Signalled (events s)) + sending s
       + length (filter (\<lambda>path. path \<noteq> ''/favicon.ico'') (handling s))
     = length (filter qualifying (events s))"

definition approved :: "auth_event list \<Rightarrow> bool" where
  "approved evs \<longleftrightarrow> (\<exists>path. path \<noteq> ''/favicon.ico'' \<and> Requested path \<in> set evs)"

definition past_receive :: "main_pc \<Rightarrow> bool" where
  "past_receive pc = (case pc of AtObtainAccessToken _ \<Rightarrow> True | _ \<Rightarrow> False)"

definition ordered :: "auth_state \<Rightarrow> bool" where
  "ordered s \<longleftrightarrow>
     (past_receive (main_at s) \<longrightarrow> approved (events s)) \<and>
     (\<forall>before requestToken after.
        events s = before @ Called_ObtainAccessToken requestToken # after \<longrightarrow> approved before)"

text \<open>
  A URL is settled when nothing is left in it of what \<open>CleanURL\<close> rewrites or removes
  apart from a trailing slash: no \<open>http://\<close>, none of the three \<open>feature=\<close>
  parameters, no \<open>&a\<close> and no ampersand at the end. \<open>count_s\<close> counts the
  letters \<open>s\<close>, which only the rewriting of \<open>http://\<close> adds.
\<close>

definition settled :: "string \<Rightarrow> bool" where
  "settled v \<longleftrightarrow>
     \<not> Contains v ''http://'' \<and> \<not> HasSuffix v ''&a'' \<and> \<not> Contains v ''feature=g-u''
     \<and> \<not> Contains v ''feature=youtu.be'' \<and> \<not> Contains v ''feature=youtube_gdata''
     \<and> \<not> HasSuffix v ''&''"

definition count_s :: "string \<Rightarrow> nat" where
  "count_s x = length (filter (\<lambda>c. c = CHR ''s'') x)"

section \<open>Properties of the string functions\<close>

lemma Contains_Nil: "Contains s []"
  by (cases s) (simp_all add: HasPrefix_def)

lemma Contains_append: "Contains s sub \<Longrightarrow> Contains (s @ t) sub"
proof (induction s)
  case Nil
  then show ?case by (simp add: Contains_Nil)
next
  case (Cons a s)
  have "prefix sub (a # s) \<Longrightarrow> prefix sub ((a # s) @ t)"
    by (rule prefix_prefix)
  with Cons show ?case by (auto simp: HasPrefix_def)
qed

lemma ReplaceAll_absent: "\<not> Contains s old \<Longrightarrow> ReplaceAll s old new = s"
  by (induction s) auto

lemma TrimSuffix_absent: "\<not> HasSuffix s suf \<Longrightarrow> TrimSuffix s suf = s"
  by (simp add: TrimSuffix_def)

lemma amps_absent: "\<not> Contains s ''&&'' \<Longrightarrow> amps_ReplaceAllString s = s"
proof (induction s rule: amps_ReplaceAllString.induct)
  case 1
  then show ?case by simp
next
  case (2 c cs)
  then show ?case
    by (cases cs) (auto simp: HasPrefix_def)
qed

lemma amps_head: "amps_ReplaceAllString s = CHR ''&'' # t \<Longrightarrow> \<exists>u. s = CHR ''&'' # u"
  by (cases s) (auto split: if_splits)

text \<open>After the regular expression has run, no two ampersands are next to each other.\<close>

lemma amps_no_double: "\<not> Contains (amps_ReplaceAllString s) ''&&''"
proof (induction s rule: amps_ReplaceAllString.induct)
  case 1
  then show ?case by simp
next
  case (2 c cs)
  show ?case
  proof (cases "c = CHR ''&''")
    case True
    let ?r = "dropWhile (\<lambda>d. d = CHR ''&'') cs"
    have "\<not> HasPrefix (amps_ReplaceAllString ?r) ''&''"
    proof
      assume "HasPrefix (amps_ReplaceAllString ?r) ''&''"
      then obtain t where "amps_ReplaceAllString ?r = CHR ''&'' # t"
        by (auto simp: HasPrefix_def prefix_def)
      then obtain u where u: "?r = CHR ''&'' # u" using amps_head by blast
      then have "hd ?r = CHR ''&''" by simp
      moreover have "?r \<noteq> []" using u by simp
      ultimately show False using hd_dropWhile [of "\<lambda>d. d = CHR ''&''" cs] by blast
    qed
    with True 2 show ?thesis by (auto simp: HasPrefix_def)
  next
    case False
    with 2 show ?thesis by (auto simp: HasPrefix_def)
  qed
qed

lemma TrimRight_prefix: "\<exists>t. s = TrimRight s cutset @ t"
proof -
  let ?P = "\<lambda>c. c \<in> set cutset"
  have "rev s = takeWhile ?P (rev s) @ dropWhile ?P (rev s)"
    by simp
  then have "s = rev (dropWhile ?P (rev s)) @ rev (takeWhile ?P (rev s))"
    by (metis rev_append rev_rev_ident)
  then show ?thesis unfolding TrimRight_def by blast
qed

lemma TrimRight_keeps_absent: "\<not> Contains s sub \<Longrightarrow> \<not> Contains (TrimRight s cutset) sub"
  using TrimRight_prefix [of s cutset] Contains_append by metis

lemma TrimRight_idem: "TrimRight (TrimRight s cutset) cutset = TrimRight s cutset"
  by (simp add: TrimRight_def)

lemma TrimRight_absent: "\<not> HasSuffix s [c] \<Longrightarrow> TrimRight s [c] = s"
  by (cases s rule: rev_cases) (auto simp: TrimRight_def HasSuffix_def)

section \<open>Canonical URLs\<close>

text \<open>
  Claim C5, as the specification states it: \<open>CleanURL (CleanURL u) = CleanURL u\<close> for
  every string \<open>u\<close>. It fails: removing the trailing slash of \<open>https://a.com/?x=1&/\<close>
  uncovers an ampersand, which only a second pass removes.
\<close>

theorem CleanURL_not_idempotent:
  "CleanURL (CleanURL ''https://a.com/?x=1&/'') \<noteq> CleanURL ''https://a.com/?x=1&/''"
  by code_simp

text \<open>
  A settled result of \<open>CleanURL\<close> is a fixed point: the first pass itself leaves no
  double ampersand and no trailing slash.
\<close>

lemma CleanURL_settled_fixed:
  assumes "\<not> Contains (CleanURL u) ''http://''"
    and "\<not> HasSuffix (CleanURL u) ''&a''"
    and "\<not> Contains (CleanURL u) ''feature=g-u''"
    and "\<not> Contains (CleanURL u) ''feature=youtu.be''"
    and "\<not> Contains (CleanURL u) ''feature=youtube_gdata''"
    and "\<not> HasSuffix (CleanURL u) ''&''"
  shows "CleanURL (CleanURL u) = CleanURL u"
proof -
  define v where "v = CleanURL u"
  obtain w where w: "v = TrimRight (TrimRight (amps_ReplaceAllString w) ''&'') ''/''"
    unfolding v_def CleanURL_def Let_def by blast
  have nodouble: "\<not> Contains v ''&&''"
    unfolding w by (intro TrimRight_keeps_absent amps_no_double)
  have slash: "TrimRight v ''/'' = v"
    unfolding w by (rule TrimRight_idem)
  have "CleanURL v = v"
    using assms nodouble slash unfolding v_def [symmetric]
    by (simp add: CleanURL_def ReplaceAll_absent TrimSuffix_absent amps_absent TrimRight_absent)
  then show ?thesis by (simp add: v_def)
qed

text \<open>
  The converse. Where \<open>http://\<close> is left, a second pass adds a letter \<open>s\<close> that no
  later step removes; otherwise every step keeps or shortens the string, and the first
  step that finds something to remove shortens it.
\<close>

lemma count_s_append: "count_s (x @ y) = count_s x + count_s y"
  by (simp add: count_s_def)

lemma prefix_drop: "prefix old s \<Longrightarrow> s = old @ drop (length old) s"
  by (auto simp: prefix_def)

lemma count_s_ReplaceAll_le:
  "count_s old \<le> count_s new \<Longrightarrow> count_s s \<le> count_s (ReplaceAll s old new)"
proof (induction s old new rule: ReplaceAll.induct)
  case (1 old new)
  then show ?case by simp
next
  case (2 c cs old new)
  show ?case
  proof (cases "old \<noteq> [] \<and> HasPrefix (c # cs) old")
    case True
    then have "prefix old (c # cs)" by (simp add: HasPrefix_def)
    then have "c # cs = old @ drop (length old) (c # cs)"
      by (rule prefix_drop)
    then have "count_s (c # cs) = count_s old + count_s (drop (length old) (c # cs))"
      using count_s_append by metis
    moreover have "count_s (drop (length old) (c # cs))
                   \<le> count_s (ReplaceAll (drop (length old) (c # cs)) old new)"
      using 2 True by blast
    ultimately show ?thesis using True 2(3) by (simp add: count_s_append)
  next
    case False
    then have "count_s cs \<le> count_s (ReplaceAll cs old new)" using 2 by blast
    with False show ?thesis by (auto simp: count_s_def)
  qed
qed

lemma count_s_ReplaceAll_less:
  "count_s old < count_s new \<Longrightarrow> old \<noteq> [] \<Longrightarrow> Contains s old
   \<Longrightarrow> count_s s < count_s (ReplaceAll s old new)"
proof (induction s old new rule: ReplaceAll.induct)
  case (1 old new)
  then show ?case by simp
next
  case (2 c cs old new)
  show ?case
  proof (cases "HasPrefix (c # cs) old")
    case True
    then have "prefix old (c # cs)" by (simp add: HasPrefix_def)
    then have "c # cs = old @ drop (length old) (c # cs)"
      by (rule prefix_drop)
    then have "count_s (c # cs) = count_s old + count_s (drop (length old) (c # cs))"
      using count_s_append by metis
    moreover have "count_s (drop (length old) (c # cs))
                   \<le> count_s (ReplaceAll (drop (length old) (c # cs)) old new)"
      using 2(3) by (intro count_s_ReplaceAll_le) simp
    ultimately show ?thesis using True 2(3,4) by (simp add: count_s_append)
  next
    case False
    with 2(5) have "Contains cs old" by simp
    with 2 False have "count_s cs < count_s (ReplaceAll cs old new)" by blast
    with False show ?thesis by (auto simp: count_s_def)
  qed
qed

lemma count_s_ReplaceAll_remove:
  "count_s old = 0 \<Longrightarrow> count_s (ReplaceAll s old []) = count_s s"
proof (induction s old "[] :: string" rule: ReplaceAll.induct)
  case (1 old)
  then show ?case by simp
next
  case (2 c cs old)
  show ?case
  proof (cases "old \<noteq> [] \<and> HasPrefix (c # cs) old")
    case True
    then have "prefix old (c # cs)" by (simp add: HasPrefix_def)
    then have "c # cs = old @ drop (length old) (c # cs)"
      by (rule prefix_drop)
    then have "count_s (c # cs) = count_s old + count_s (drop (length old) (c # cs))"
      using count_s_append by metis
    moreover have "count_s (ReplaceAll (drop (length old) (c # cs)) old [])
                   = count_s (drop (length old) (c # cs))"
      using 2 True by blast
    ultimately show ?thesis using True 2(3) by simp
  next
    case False
    then have "count_s (ReplaceAll cs old []) = count_s cs" using 2 by blast
    with False show ?thesis by (auto simp: count_s_def)
  qed
qed

lemma count_s_TrimSuffix: "count_s suf = 0 \<Longrightarrow> count_s (TrimSuffix s suf) = count_s s"
proof (cases "HasSuffix s suf")
  case True
  assume 0: "count_s suf = 0"
  from True obtain t where s: "s = t @ suf" by (auto simp: HasSuffix_def suffix_def)
  then have "TrimSuffix s suf = t" using True by (simp add: TrimSuffix_def)
  with s 0 show ?thesis by (simp add: count_s_append)
next
  case False
  then show ?thesis by (simp add: TrimSuffix_def)
qed

lemma count_s_amps: "count_s (amps_ReplaceAllString s) = count_s s"
proof (induction s rule: amps_ReplaceAllString.induct)
  case 1
  then show ?case by simp
next
  case (2 c cs)
  show ?case
  proof (cases "c = CHR ''&''")
    case True
    let ?P = "\<lambda>d. d = CHR ''&''"
    have "cs = takeWhile ?P cs @ dropWhile ?P cs" by simp
    then have "count_s cs = count_s (takeWhile ?P cs) + count_s (dropWhile ?P cs)"
      using count_s_append by metis
    moreover have "count_s (takeWhile ?P cs) = 0"
      unfolding count_s_def by (auto simp: filter_empty_conv dest: set_takeWhileD)
    ultimately have "count_s (dropWhile ?P cs) = count_s cs" by simp
    with True 2 show ?thesis by (simp add: count_s_def)
  next
    case False
    with 2 show ?thesis by (simp add: count_s_def)
  qed
qed

lemma count_s_TrimRight:
  "CHR ''s'' \<notin> set cutset \<Longrightarrow> count_s (TrimRight s cutset) = count_s s"
proof -
  assume n: "CHR ''s'' \<notin> set cutset"
  let ?P = "\<lambda>c. c \<in> set cutset"
  have "rev s = takeWhile ?P (rev s) @ dropWhile ?P (rev s)" by simp
  then have "s = rev (dropWhile ?P (rev s)) @ rev (takeWhile ?P (rev s))"
    by (metis rev_append rev_rev_ident)
  then have "count_s s = count_s (TrimRight s cutset) + count_s (rev (takeWhile ?P (rev s)))"
    unfolding TrimRight_def using count_s_append by metis
  moreover have "count_s (rev (takeWhile ?P (rev s))) = 0"
    unfolding count_s_def using n by (auto simp: filter_empty_conv dest: set_takeWhileD)
  ultimately show ?thesis by simp
qed

lemma CleanURL_more_s:
  assumes "Contains v ''http://''"
  shows "count_s v < count_s (CleanURL v)"
proof -
  have "count_s v < count_s (ReplaceAll v ''http://'' ''https://'')"
    by (rule count_s_ReplaceAll_less [OF _ _ assms]) (simp_all add: count_s_def)
  then show ?thesis
    by (simp add: CleanURL_def count_s_TrimRight count_s_amps count_s_ReplaceAll_remove
          count_s_TrimSuffix count_s_def [of "''&a''"] count_s_def [of "''feature=g-u''"]
          count_s_def [of "''feature=youtu.be''"] count_s_def [of "''feature=youtube_gdata''"])
qed

lemma length_ReplaceAll_le: "length (ReplaceAll s old []) \<le> length s"
  by (induction s old "[] :: string" rule: ReplaceAll.induct) (auto simp: le_SucI)

lemma length_ReplaceAll_less:
  "old \<noteq> [] \<Longrightarrow> Contains s old \<Longrightarrow> length (ReplaceAll s old []) < length s"
proof (induction s old "[] :: string" rule: ReplaceAll.induct)
  case (1 old)
  then show ?case by simp
next
  case (2 c cs old)
  show ?case
  proof (cases "HasPrefix (c # cs) old")
    case True
    have "length (ReplaceAll (drop (length old) (c # cs)) old [])
          \<le> length (drop (length old) (c # cs))"
      by (rule length_ReplaceAll_le)
    with True 2(3) show ?thesis by (cases old) auto
  next
    case False
    with 2 show ?thesis by auto
  qed
qed

lemma length_TrimSuffix_le: "length (TrimSuffix s suf) \<le> length s"
  by (simp add: TrimSuffix_def)

lemma length_TrimSuffix_less:
  "suf \<noteq> [] \<Longrightarrow> HasSuffix s suf \<Longrightarrow> length (TrimSuffix s suf) < length s"
  by (auto simp: TrimSuffix_def HasSuffix_def suffix_def)

lemma length_amps_le: "length (amps_ReplaceAllString s) \<le> length s"
proof (induction s rule: amps_ReplaceAllString.induct)
  case 1
  then show ?case by simp
next
  case (2 c cs)
  have "length (dropWhile (\<lambda>d. d = CHR ''&'') cs) \<le> length cs"
    by (rule length_dropWhile_le)
  with 2 show ?case by (cases "c = CHR ''&''") auto
qed

lemma length_TrimRight_le: "length (TrimRight s cutset) \<le> length s"
  using length_dropWhile_le [of "\<lambda>c. c \<in> set cutset" "rev s"] by (simp add: TrimRight_def)

lemma length_TrimRight_less:
  "HasSuffix s [c] \<Longrightarrow> length (TrimRight s [c]) < length s"
proof -
  assume "HasSuffix s [c]"
  then obtain t where s: "s = t @ [c]" by (auto simp: HasSuffix_def suffix_def)
  have "length (dropWhile (\<lambda>d. d = c) (rev t)) \<le> length (rev t)"
    by (rule length_dropWhile_le)
  then show ?thesis unfolding s by (simp add: TrimRight_def)
qed

lemma CleanURL_shorter:
  assumes "\<not> Contains v ''http://''" and "\<not> Contains v ''&&''"
    and "HasSuffix v ''&a'' \<or> Contains v ''feature=g-u'' \<or> Contains v ''feature=youtu.be''
         \<or> Contains v ''feature=youtube_gdata'' \<or> HasSuffix v ''&''"
  shows "length (CleanURL v) < length v"
proof -
  let ?u2 = "TrimSuffix v ''&a''"
  let ?u3 = "ReplaceAll ?u2 ''feature=g-u'' []"
  let ?u4 = "ReplaceAll ?u3 ''feature=youtu.be'' []"
  let ?u5 = "ReplaceAll ?u4 ''feature=youtube_gdata'' []"
  let ?u6 = "amps_ReplaceAllString ?u5"
  let ?u7 = "TrimRight ?u6 ''&''"
  let ?u8 = "TrimRight ?u7 ''/''"
  have c: "CleanURL v = ?u8"
    using assms(1) by (simp add: CleanURL_def ReplaceAll_absent)
  have l2: "length ?u2 \<le> length v" by (rule length_TrimSuffix_le)
  have l3: "length ?u3 \<le> length ?u2" by (rule length_ReplaceAll_le)
  have l4: "length ?u4 \<le> length ?u3" by (rule length_ReplaceAll_le)
  have l5: "length ?u5 \<le> length ?u4" by (rule length_ReplaceAll_le)
  have l6: "length ?u6 \<le> length ?u5" by (rule length_amps_le)
  have l7: "length ?u7 \<le> length ?u6" by (rule length_TrimRight_le)
  have l8: "length ?u8 \<le> length ?u7" by (rule length_TrimRight_le)
  consider (a) "HasSuffix v ''&a''"
    | (b) "\<not> HasSuffix v ''&a''" "Contains v ''feature=g-u''"
    | (c) "\<not> HasSuffix v ''&a''" "\<not> Contains v ''feature=g-u''" "Contains v ''feature=youtu.be''"
    | (d) "\<not> HasSuffix v ''&a''" "\<not> Contains v ''feature=g-u''"
          "\<not> Contains v ''feature=youtu.be''" "Contains v ''feature=youtube_gdata''"
    | (e) "\<not> HasSuffix v ''&a''" "\<not> Contains v ''feature=g-u''"
          "\<not> Contains v ''feature=youtu.be''" "\<not> Contains v ''feature=youtube_gdata''"
          "HasSuffix v ''&''"
    using assms(3) by blast
  then have "length ?u8 < length v"
  proof cases
    case a
    then have "length ?u2 < length v" by (intro length_TrimSuffix_less) simp_all
    with l3 l4 l5 l6 l7 l8 show ?thesis by linarith
  next
    case b
    then have "?u2 = v" by (simp add: TrimSuffix_absent)
    moreover have "length (ReplaceAll v ''feature=g-u'' []) < length v"
      using b(2) by (intro length_ReplaceAll_less) simp_all
    ultimately have "length ?u3 < length v" by simp
    with l4 l5 l6 l7 l8 show ?thesis by linarith
  next
    case c
    then have "?u3 = v" by (simp add: TrimSuffix_absent ReplaceAll_absent)
    moreover have "length (ReplaceAll v ''feature=youtu.be'' []) < length v"
      using c(3) by (intro length_ReplaceAll_less) simp_all
    ultimately have "length ?u4 < length v" by simp
    with l5 l6 l7 l8 show ?thesis by linarith
  next
    case d
    then have "?u4 = v" by (simp add: TrimSuffix_absent ReplaceAll_absent)
    moreover have "length (ReplaceAll v ''feature=youtube_gdata'' []) < length v"
      using d(4) by (intro length_ReplaceAll_less) simp_all
    ultimately have "length ?u5 < length v" by simp
    with l6 l7 l8 show ?thesis by linarith
  next
    case e
    then have "?u6 = v"
      using assms(2) by (simp add: TrimSuffix_absent ReplaceAll_absent amps_absent)
    moreover have "length (TrimRight v ''&'') < length v"
      using e(5) by (rule length_TrimRight_less)
    ultimately have "length ?u7 < length v" by simp
    with l8 show ?thesis by linarith
  qed
  with c show ?thesis by simp
qed

lemma CleanURL_no_double: "\<not> Contains (CleanURL u) ''&&''"
  unfolding CleanURL_def Let_def by (intro TrimRight_keeps_absent amps_no_double)

text \<open>
  Claim C5, amended: \<open>CleanURL (CleanURL u) = CleanURL u\<close> holds exactly for the inputs
  \<open>u\<close> whose first result is settled, that is, does not contain \<open>http://\<close> or one of
  the three \<open>feature=\<close> parameters and does not end in \<open>&a\<close> or \<open>&\<close>; on every
  such input \<open>CleanURL\<close> is idempotent.
\<close>

theorem CleanURL_idempotent_iff:
  "CleanURL (CleanURL u) = CleanURL u \<longleftrightarrow> settled (CleanURL u)"
proof
  assume fixed: "CleanURL (CleanURL u) = CleanURL u"
  show "settled (CleanURL u)"
  proof (rule ccontr)
    assume n: "\<not> settled (CleanURL u)"
    show False
    proof (cases "Contains (CleanURL u) ''http://''")
      case True
      from CleanURL_more_s [OF this] fixed show False by simp
    next
      case False
      with n have "HasSuffix (CleanURL u) ''&a'' \<or> Contains (CleanURL u) ''feature=g-u''
         \<or> Contains (CleanURL u) ''feature=youtu.be''
         \<or> Contains (CleanURL u) ''feature=youtube_gdata'' \<or> HasSuffix (CleanURL u) ''&''"
        unfolding settled_def by blast
      from CleanURL_shorter [OF False CleanURL_no_double this] fixed show False by simp
    qed
  qed
next
  assume "settled (CleanURL u)"
  then show "CleanURL (CleanURL u) = CleanURL u"
    unfolding settled_def using CleanURL_settled_fixed by blast
qed


theorem CleanURL_idempotent_iff_witness:
  "settled (CleanURL ''http://example.com/a?x=1&feature=youtu.be'')
   \<and> CleanURL (CleanURL ''http://example.com/a?x=1&feature=youtu.be'')
       = CleanURL ''http://example.com/a?x=1&feature=youtu.be''
   \<and> CleanURL (CleanURL ''https://a.com/?x=1&/'') \<noteq> CleanURL ''https://a.com/?x=1&/''
   \<and> \<not> settled (CleanURL ''https://a.com/?x=1&/'')"
proof -
  have 1: "settled (CleanURL ''http://example.com/a?x=1&feature=youtu.be'')"
    by code_simp
  have 2: "CleanURL (CleanURL ''https://a.com/?x=1&/'') \<noteq> CleanURL ''https://a.com/?x=1&/''"
    by code_simp
  from 1 2 CleanURL_idempotent_iff [of "''http://example.com/a?x=1&feature=youtu.be''"]
    CleanURL_idempotent_iff [of "''https://a.com/?x=1&/''"]
  show ?thesis by blast
qed

text \<open>
  Claim C6: the specification expects \<open>CleanURL\<close> to give the same string for
  \<open>http://example.com/a?feature=youtu.be&x=1\<close> and \<open>https://example.com/a?x=1\<close>.
  The code removes the parameter and leaves the ampersand that followed it, so the first
  URL keeps \<open>?&x=1\<close> and the two results differ.
\<close>

theorem CleanURL_leading_parameter:
  "CleanURL ''http://example.com/a?feature=youtu.be&x=1'' = ''https://example.com/a?&x=1''
   \<and> CleanURL ''https://example.com/a?x=1'' = ''https://example.com/a?x=1''
   \<and> CleanURL ''http://example.com/a?feature=youtu.be&x=1''
       \<noteq> CleanURL ''https://example.com/a?x=1''"
  by code_simp

section \<open>The error of doJSON\<close>

lemma Contains_iff: "Contains t s \<longleftrightarrow> (\<exists>a b. t = a @ s @ b)"
proof (induction t)
  case Nil
  then show ?case by auto
next
  case (Cons c cs)
  show ?case
  proof
    assume "Contains (c # cs) s"
    then consider "prefix s (c # cs)" | "Contains cs s" by (auto simp: HasPrefix_def)
    then show "\<exists>a b. c # cs = a @ s @ b"
    proof cases
      case 1
      then obtain b where "c # cs = s @ b" by (auto simp: prefix_def)
      then have "c # cs = [] @ s @ b" by simp
      then show ?thesis by blast
    next
      case 2
      with Cons obtain a b where "cs = a @ s @ b" by blast
      then have "c # cs = (c # a) @ s @ b" by simp
      then show ?thesis by blast
    qed
  next
    assume "\<exists>a b. c # cs = a @ s @ b"
    then obtain a b where ab: "c # cs = a @ s @ b" by blast
    show "Contains (c # cs) s"
    proof (cases a)
      case Nil
      with ab have "prefix s (c # cs)" by (simp add: prefix_def)
      then show ?thesis by (simp add: HasPrefix_def)
    next
      case (Cons x xs)
      with ab have "cs = xs @ s @ b" by simp
      with Cons.IH show ?thesis by auto
    qed
  qed
qed

lemma Contains_prefixI: "Contains (s @ b) s"
  unfolding Contains_iff by (metis append_Nil)

lemma Contains_self: "Contains s s"
  unfolding Contains_iff by (metis append_Nil append_Nil2)

lemma Contains_appendI2: "Contains ys s \<Longrightarrow> Contains (xs @ ys) s"
  unfolding Contains_iff by (metis append.assoc)

lemma Contains_trans: "Contains t s \<Longrightarrow> Contains s u \<Longrightarrow> Contains t u"
  unfolding Contains_iff by (metis append.assoc)

lemma appendEscapedRune_plain: "plain c \<Longrightarrow> appendEscapedRune c = [c]"
  by (simp add: plain_def appendEscapedRune_def Let_def)

lemma Quote_plain: "list_all plain v \<Longrightarrow> Quote v = dquote # v @ [dquote]"
  by (induction v) (auto simp: Quote_def appendEscapedRune_plain)

lemma Contains_Quote_plain: "list_all plain v \<Longrightarrow> Contains (Quote v) v"
  unfolding Contains_iff using Quote_plain by (metis append_Cons append_Nil)

lemma shows_headerI:
  "Contains text (Quote (Header_Get (Header resp) key)) \<Longrightarrow> shows_header text resp key"
  unfolding shows_header_def using Contains_Quote_plain Contains_trans by blast

lemma status_error_shows: "list_all (shows_header (status_error resp) resp) error_headers"
proof -
  note I2 = Contains_appendI2
  have 1: "shows_header (status_error resp) resp ''X-Error''"
    unfolding status_error_def
    by (rule shows_headerI) (rule I2 [THEN I2, THEN I2], rule Contains_prefixI)
  have 2: "shows_header (status_error resp) resp ''X-Error-Code''"
    unfolding status_error_def
    by (rule shows_headerI) (rule I2 [THEN I2, THEN I2, THEN I2, THEN I2], rule Contains_prefixI)
  have 3: "shows_header (status_error resp) resp ''X-Limit-User-Limit''"
    unfolding status_error_def
    by (rule shows_headerI)
      (rule I2 [THEN I2, THEN I2, THEN I2, THEN I2, THEN I2, THEN I2], rule Contains_prefixI)
  have 4: "shows_header (status_error resp) resp ''X-Limit-User-Remaining''"
    unfolding status_error_def
    by (rule shows_headerI)
      (rule I2 [THEN I2, THEN I2, THEN I2, THEN I2, THEN I2, THEN I2, THEN I2, THEN I2],
        rule Contains_prefixI)
  have 5: "shows_header (status_error resp) resp ''X-Limit-User-Reset''"
    unfolding status_error_def
    by (rule shows_headerI)
      (rule I2 [THEN I2, THEN I2, THEN I2, THEN I2, THEN I2, THEN I2, THEN I2, THEN I2,
                THEN I2, THEN I2], rule Contains_prefixI)
  have 6: "shows_header (status_error resp) resp ''X-Limit-Key-Limit''"
    unfolding status_error_def
    by (rule shows_headerI)
      (rule I2 [THEN I2, THEN I2, THEN I2, THEN I2, THEN I2, THEN I2, THEN I2, THEN I2,
                THEN I2, THEN I2, THEN I2, THEN I2], rule Contains_prefixI)
  have 7: "shows_header (status_error resp) resp ''X-Limit-Key-Remaining''"
    unfolding status_error_def
    by (rule shows_headerI)
      (rule I2 [THEN I2, THEN I2, THEN I2, THEN I2, THEN I2, THEN I2, THEN I2, THEN I2,
                THEN I2, THEN I2, THEN I2, THEN I2, THEN I2, THEN I2], rule Contains_prefixI)
  have 8: "shows_header (status_error resp) resp ''X-Limit-Key-Reset''"
    unfolding status_error_def
    by (rule shows_headerI)
      (rule I2 [THEN I2, THEN I2, THEN I2, THEN I2, THEN I2, THEN I2, THEN I2, THEN I2,
                THEN I2, THEN I2, THEN I2, THEN I2, THEN I2, THEN I2, THEN I2, THEN I2],
        rule Contains_self)
  from 1 2 3 4 5 6 7 8 show ?thesis
    unfolding error_headers_def by (simp only: list.pred_inject simp_thms)
qed

text \<open>
  Claim C9, as the specification states it: the error text contains the exact value of the
  \<open>X-Error\<close> header. It fails for a value with a double quote in it: \<open>%q\<close> writes a
  backslash before the quote, so the text has \<open>invalid \"consumer_key\"\<close> where the
  header has \<open>invalid "consumer_key"\<close>.
\<close>

theorem doJSON_error_text_escaped:
  "doJSON (Inr (forbidden quoted_error)) no_decoder = Inl (status_error (forbidden quoted_error))
   \<and> Header_Get (Header (forbidden quoted_error)) ''X-Error'' = quoted_error
   \<and> \<not> Contains (status_error (forbidden quoted_error)) quoted_error"
  by code_simp

text \<open>
  Claim C9, amended: for a response with a status other than 200, \<open>doJSON\<close> returns an
  error whose text contains, for \<open>X-Error\<close>, \<open>X-Error-Code\<close> and the six rate-limit
  headers, the value as \<open>%q\<close> writes it, and the exact value whenever the value is made
  of plain characters (as \<open>user not authorized\<close> is).
\<close>

theorem doJSON_error_text:
  assumes "StatusCode resp \<noteq> 200"
  shows "\<exists>text. doJSON (Inr resp) decode = Inl text
           \<and> list_all (shows_header text resp) error_headers"
proof -
  have "doJSON (Inr resp) decode = Inl (status_error resp)"
    using assms by (simp add: doJSON_def)
  with status_error_shows show ?thesis by blast
qed

theorem doJSON_error_text_witness:
  "StatusCode (forbidden ''user not authorized'') \<noteq> 200
   \<and> (\<exists>text. doJSON (Inr (forbidden ''user not authorized'')) no_decoder = Inl text
         \<and> Contains text ''user not authorized'')"
proof -
  let ?resp = "forbidden ''user not authorized''"
  have status: "StatusCode ?resp \<noteq> 200" by (simp add: forbidden_def)
  from doJSON_error_text [OF status, of no_decoder] obtain msg where
    msg: "doJSON (Inr ?resp) no_decoder = Inl msg"
      "list_all (shows_header msg ?resp) error_headers" by blast
  from msg(2) have "shows_header msg ?resp ''X-Error''"
    unfolding error_headers_def by (simp only: list.pred_inject)
  moreover have "Header_Get (Header ?resp) ''X-Error'' = ''user not authorized''"
    by code_simp
  moreover have "list_all plain ''user not authorized''"
    by code_simp
  ultimately have "Contains msg ''user not authorized''"
    unfolding shows_header_def by simp
  with status msg(1) show ?thesis by blast
qed

section \<open>Modify\<close>

lemma Modify_loop_in_bounds:
  "i + length rs \<le> length actions \<Longrightarrow>
   Modify_loop actions i rs w =
     (Returned (), w\<lparr>trace := trace w @ failure_logs (drop i actions) rs\<rparr>)"
proof (induction rs arbitrary: i w)
  case Nil
  then show ?case by (simp add: failure_logs_def)
next
  case (Cons r rs)
  then have i: "i < length actions" by simp
  then have d: "drop i actions = actions ! i # drop (Suc i) actions"
    by (simp add: Cons_nth_drop_Suc)
  from Cons.prems have "Suc i + length rs \<le> length actions" by simp
  note IH = Cons.IH [OF this]
  show ?case
    by (simp add: IH i d failure_logs_def failure_log_def emit_def)
qed

lemma Modify_loop_panics:
  "(\<exists>msg w'. Modify_loop actions i rs w = (Panic msg, w'))
   \<longleftrightarrow> (\<exists>j < length rs. length actions \<le> i + j \<and> \<not> rs ! j)"
proof (induction rs arbitrary: i w)
  case Nil
  then show ?case by simp
next
  case (Cons r rs)
  have shift: "(\<exists>j < length (r # rs). length actions \<le> i + j \<and> \<not> (r # rs) ! j)
     \<longleftrightarrow> ((length actions \<le> i \<and> \<not> r) \<or> (\<exists>j < length rs. length actions \<le> Suc i + j \<and> \<not> rs ! j))"
    (is "?L \<longleftrightarrow> ?R")
  proof
    assume ?L
    then obtain j where j: "j < length (r # rs)" "length actions \<le> i + j" "\<not> (r # rs) ! j" by blast
    show ?R
    proof (cases j)
      case 0
      with j show ?thesis by simp
    next
      case (Suc k)
      with j have "k < length rs" "length actions \<le> Suc i + k" "\<not> rs ! k" by simp_all
      then show ?thesis by blast
    qed
  next
    assume ?R
    then show ?L
    proof
      assume "length actions \<le> i \<and> \<not> r"
      then have "0 < length (r # rs) \<and> length actions \<le> i + 0 \<and> \<not> (r # rs) ! 0" by simp
      then show ?L by blast
    next
      assume "\<exists>j < length rs. length actions \<le> Suc i + j \<and> \<not> rs ! j"
      then obtain k where "k < length rs" "length actions \<le> Suc i + k" "\<not> rs ! k" by blast
      then have "Suc k < length (r # rs) \<and> length actions \<le> i + Suc k \<and> \<not> (r # rs) ! Suc k" by simp
      then show ?L by blast
    qed
  qed
  show ?case
  proof (cases r)
    case True
    then show ?thesis unfolding shift using Cons.IH [of "Suc i" w] by simp
  next
    case False
    show ?thesis
    proof (cases "i < length actions")
      case True
      with False show ?thesis unfolding shift
        using Cons.IH [of "Suc i"] by simp
    next
      case False
      with \<open>\<not> r\<close> show ?thesis unfolding shift by simp
    qed
  qed
qed

lemma Modify_loop_result:
  "Modify_loop actions i rs w = (x, w') \<Longrightarrow> x = Returned () \<or> (\<exists>msg. x = Panic msg)"
  by (induction rs arbitrary: i w) (auto split: if_splits)

text \<open>
  Claim C10, as stated, ends: a response with more action results than actions makes the
  indexing out of bounds. It does not when the extra results are \<open>true\<close>: \<open>actions[i]\<close>
  is read for a \<open>false\<close> result only. With one action and the results \<open>[true, true]\<close>
  \<open>Modify\<close> returns the result and no error.
\<close>

theorem Modify_extra_results_no_panic:
  "Modify (example_env [] [True, True] (no_such_host ''Head'') (no_such_host ''Get'')) client0
     [NewDeleteAction 1] (start [])
   = (Returned (Inr \<lparr>ActionResults = [True, True], ActionErrors = [], Status = 1\<rparr>),
      \<lparr>trace = [Post ''https://getpocket.com/v3/send''
                   \<lparr>Actions = [NewDeleteAction 1], auth = client0\<rparr>],
       stdin = []\<rparr>)"
  by code_simp

text \<open>
  Claim C10, amended: \<open>Modify\<close> reads \<open>actions[i]\<close> at the positions \<open>i\<close> of the
  decoded \<open>ActionResults\<close> whose result is \<open>false\<close>. For a successful response with at
  most as many results as actions every such read is in bounds, and \<open>Modify\<close> returns
  the result with a nil error, after one log line for each failed action. \<open>Modify\<close>
  panics exactly when a result at a position that is not an index of \<open>actions\<close> is
  \<open>false\<close>.
\<close>

theorem Modify_indexing:
  assumes "PostJSON (api_send e (trace w)) ''/v3/send'' \<lparr>Actions = actions, auth = c\<rparr>
             (decode_ModifyResult e) = Inr res"
  shows "(length (ActionResults res) \<le> length actions \<longrightarrow>
            Modify e c actions w =
              (Returned (Inr res),
               w\<lparr>trace := trace w @ Post (Origin @ ''/v3/send'') \<lparr>Actions = actions, auth = c\<rparr>
                                   # failure_logs actions (ActionResults res)\<rparr>))
         \<and> ((\<exists>msg w'. Modify e c actions w = (Panic msg, w'))
              \<longleftrightarrow> (\<exists>i < length (ActionResults res). length actions \<le> i \<and> \<not> ActionResults res ! i))"
proof (intro conjI impI)
  assume "length (ActionResults res) \<le> length actions"
  then have "0 + length (ActionResults res) \<le> length actions" by simp
  from Modify_loop_in_bounds [OF this]
  show "Modify e c actions w =
              (Returned (Inr res),
               w\<lparr>trace := trace w @ Post (Origin @ ''/v3/send'') \<lparr>Actions = actions, auth = c\<rparr>
                                   # failure_logs actions (ActionResults res)\<rparr>)"
    using assms by (simp add: Modify_def Let_def andThen_def emit_def)
next
  let ?w1 = "emit (Post (Origin @ ''/v3/send'') \<lparr>Actions = actions, auth = c\<rparr>) w"
  have "(\<exists>msg w'. Modify e c actions w = (Panic msg, w'))
        \<longleftrightarrow> (\<exists>msg w'. Modify_loop actions 0 (ActionResults res) ?w1 = (Panic msg, w'))"
    using assms
    by (cases "Modify_loop actions 0 (ActionResults res) ?w1")
       (auto simp: Modify_def Let_def andThen_def split: exec.splits)
  then show "(\<exists>msg w'. Modify e c actions w = (Panic msg, w'))
              \<longleftrightarrow> (\<exists>i < length (ActionResults res). length actions \<le> i \<and> \<not> ActionResults res ! i)"
    using Modify_loop_panics [of actions 0 "ActionResults res" ?w1] by simp
qed


theorem Modify_indexing_witness:
  "PostJSON (api_send (example_env [] [True, False] (no_such_host ''Head'') (no_such_host ''Get''))
              (trace (start [])))
     ''/v3/send'' \<lparr>Actions = [NewDeleteAction 1, NewDeleteAction 2], auth = client0\<rparr>
     (decode_ModifyResult (example_env [] [True, False] (no_such_host ''Head'') (no_such_host ''Get'')))
   = Inr \<lparr>ActionResults = [True, False], ActionErrors = [], Status = 1\<rparr>
   \<and> Modify (example_env [] [True, False] (no_such_host ''Head'') (no_such_host ''Get'')) client0
       [NewDeleteAction 1, NewDeleteAction 2] (start [])
     = (Returned (Inr \<lparr>ActionResults = [True, False], ActionErrors = [], Status = 1\<rparr>),
        \<lparr>trace = [Post ''https://getpocket.com/v3/send''
                     \<lparr>Actions = [NewDeleteAction 1, NewDeleteAction 2], auth = client0\<rparr>,
                   failure_log (NewDeleteAction 2)],
         stdin = []\<rparr>)"
proof -
  let ?e = "example_env [] [True, False] (no_such_host ''Head'') (no_such_host ''Get'')"
  let ?acts = "[NewDeleteAction 1, NewDeleteAction 2]"
  let ?res = "\<lparr>ActionResults = [True, False], ActionErrors = [], Status = 1\<rparr>"
  have post: "PostJSON (api_send ?e (trace (start []))) ''/v3/send''
                \<lparr>Actions = ?acts, auth = client0\<rparr> (decode_ModifyResult ?e) = Inr ?res"
    by (simp add: PostJSON_def doJSON_def example_env_def)
  have "length (ActionResults ?res) \<le> length ?acts" by simp
  with Modify_indexing [OF post] have
    "Modify ?e client0 ?acts (start [])
     = (Returned (Inr ?res),
        (start [])\<lparr>trace := trace (start [])
                     @ Post (Origin @ ''/v3/send'') \<lparr>Actions = ?acts, auth = client0\<rparr>
                       # failure_logs ?acts (ActionResults ?res)\<rparr>)"
    by blast
  then have "Modify ?e client0 ?acts (start [])
     = (Returned (Inr ?res),
        \<lparr>trace = [Post ''https://getpocket.com/v3/send'' \<lparr>Actions = ?acts, auth = client0\<rparr>,
                  failure_log (NewDeleteAction 2)],
         stdin = []\<rparr>)"
    by (simp add: start_def failure_logs_def Origin_def)
  with post show ?thesis by blast
qed

section \<open>The order of the handshake\<close>

lemma accounted_step:
  assumes "auth_step e consumerKey s s'" and "accounted s"
  shows "accounted s'"
  using assms by (induction rule: auth_step.induct) (auto simp: accounted_def)

lemma accounted_reachable:
  "auth_reachable e consumerKey s \<Longrightarrow> accounted s"
proof (induction rule: auth_reachable.induct)
  case start
  show ?case by (simp add: accounted_def auth_init_def)
next
  case (step s s')
  then show ?case using accounted_step by blast
qed

lemma approved_append: "approved evs \<Longrightarrow> approved (evs @ rest)"
  by (auto simp: approved_def)

lemma qualifying_Requested:
  "qualifying ev \<Longrightarrow> \<exists>path. ev = Requested path \<and> path \<noteq> ''/favicon.ico''"
  by (cases ev) simp_all

lemma qualifying_approved: "filter qualifying evs \<noteq> [] \<Longrightarrow> approved evs"
proof -
  assume "filter qualifying evs \<noteq> []"
  then obtain ev where ev: "ev \<in> set evs" "qualifying ev"
    by (auto simp: filter_empty_conv)
  from qualifying_Requested [OF ev(2)] ev(1) show ?thesis
    unfolding approved_def by blast
qed

lemma snoc_split:
  assumes "before @ c # after = evs @ [ev]"
  shows "(after = [] \<and> before = evs \<and> ev = c) \<or> (\<exists>after'. after = after' @ [ev] \<and> evs = before @ c # after')"
proof (cases after rule: rev_cases)
  case Nil
  with assms show ?thesis by simp
next
  case (snoc after' x)
  with assms have "(before @ c # after') @ [x] = evs @ [ev]" by simp
  then have "before @ c # after' = evs" "x = ev" by simp_all
  with snoc show ?thesis by simp
qed

lemma ordered_snoc:
  assumes "\<forall>before requestToken after.
        evs = before @ Called_ObtainAccessToken requestToken # after \<longrightarrow> approved before"
    and "\<forall>requestToken. ev = Called_ObtainAccessToken requestToken \<longrightarrow> approved evs"
  shows "\<forall>before requestToken after.
        evs @ [ev] = before @ Called_ObtainAccessToken requestToken # after \<longrightarrow> approved before"
proof (intro allI impI)
  fix before requestToken after
  assume "evs @ [ev] = before @ Called_ObtainAccessToken requestToken # after"
  then have "before @ Called_ObtainAccessToken requestToken # after = evs @ [ev]" by simp
  from snoc_split [OF this] show "approved before"
    using assms by blast
qed

lemma ordered_event:
  assumes "ordered s" and "events s' = events s @ [ev]"
    and "\<forall>requestToken. ev = Called_ObtainAccessToken requestToken \<longrightarrow> approved (events s)"
    and "past_receive (main_at s') \<longrightarrow> approved (events s')"
  shows "ordered s'"
proof -
  from assms(1) have "\<forall>before requestToken after.
        events s = before @ Called_ObtainAccessToken requestToken # after \<longrightarrow> approved before"
    unfolding ordered_def by blast
  from ordered_snoc [OF this assms(3)] assms(2,4) show ?thesis
    unfolding ordered_def by presburger
qed

lemma ordered_silent:
  assumes "ordered s" and "events s' = events s" and "\<not> past_receive (main_at s')"
  shows "ordered s'"
  using assms unfolding ordered_def by presburger

lemma ordered_past:
  "ordered s \<Longrightarrow> past_receive (main_at s) \<Longrightarrow> approved (events s @ rest)"
  unfolding ordered_def using approved_append by blast

lemma ordered_quiet_event:
  assumes "ordered s" and "events s' = events s @ [ev]" and "main_at s' = main_at s"
    and "\<And>requestToken. ev \<noteq> Called_ObtainAccessToken requestToken"
  shows "ordered s'"
proof (rule ordered_event [OF assms(1,2)])
  show "\<forall>requestToken. ev = Called_ObtainAccessToken requestToken \<longrightarrow> approved (events s)"
    using assms(4) by blast
  show "past_receive (main_at s') \<longrightarrow> approved (events s')"
    unfolding assms(2,3) using ordered_past [OF assms(1)] by blast
qed

lemma ordered_step:
  assumes "auth_step e consumerKey s s'" and "ordered s" and "accounted s"
  shows "ordered s'"
  using assms
proof (induction rule: auth_step.induct)
  case (request_arrives s path)
  show ?case
    by (rule ordered_quiet_event [OF request_arrives(2), where ev = "Requested path"]) simp_all
next
  case (handler_favicon s before after)
  show ?case
    by (rule ordered_quiet_event [OF handler_favicon(2), where ev = Answered_NotFound]) simp_all
next
  case (handler_authorized s before path after)
  show ?case
    by (rule ordered_quiet_event [OF handler_authorized(3), where ev = Answered_Authorized])
      simp_all
next
  case (request_token_error s err)
  show ?case
    by (rule ordered_event [OF request_token_error(3), where ev = Called_ObtainRequestToken])
       (simp_all add: past_receive_def)
next
  case (request_token s requestToken)
  let ?p = "Printed (auth_GenerateAuthorizationURL e requestToken (ts_URL e) @ ''\<newline>'')"
  let ?s1 = "s\<lparr>events := events s @ [Called_ObtainRequestToken]\<rparr>"
  have "ordered ?s1"
    by (rule ordered_quiet_event [OF request_token(3), where ev = Called_ObtainRequestToken])
      simp_all
  then show ?case
    by (rule ordered_event [where ev = ?p]) (simp_all add: past_receive_def)
next
  case (receive s requestToken n)
  then have "filter qualifying (events s) \<noteq> []"
    unfolding accounted_def by auto
  then have "approved (events s)" by (rule qualifying_approved)
  then have a: "approved (events s @ [Signalled])" by (rule approved_append)
  show ?case
    by (rule ordered_event [OF receive(3), where ev = Signalled]) (simp_all add: a)
next
  case (exchange s requestToken)
  have p: "past_receive (main_at s)" using exchange(1) by (simp add: past_receive_def)
  have a: "approved (events s)" using ordered_past [OF exchange(2) p, of "[]"] by simp
  show ?case
    by (rule ordered_event [OF exchange(2), where ev = "Called_ObtainAccessToken requestToken"])
       (simp_all add: past_receive_def a)
next
  case (close s result)
  show ?case
    by (rule ordered_silent [OF close(4)]) (simp_all add: past_receive_def)
qed

lemma ordered_reachable:
  "auth_reachable e consumerKey s \<Longrightarrow> ordered s"
proof (induction rule: auth_reachable.induct)
  case start
  show ?case by (simp add: ordered_def auth_init_def past_receive_def)
next
  case (step s s')
  then show ?case using ordered_step accounted_reachable by blast
qed

text \<open>
  Claim C8: in every state that a run of \<open>obtainAccessToken\<close> reaches, each call of
  \<open>auth.ObtainAccessToken\<close> among the events comes after a request to the listener whose
  path is not \<open>/favicon.ico\<close>; and the signals delivered, the handlers waiting to send
  one and the handlers that will send one are exactly as many as the requests whose path
  is not \<open>/favicon.ico\<close>, so that a request for \<open>/favicon.ico\<close> never delivers a signal.
\<close>

theorem exchange_after_qualifying_request:
  assumes "auth_reachable e consumerKey s"
  shows "(\<forall>before requestToken after.
            events s = before @ Called_ObtainAccessToken requestToken # after \<longrightarrow>
            (\<exists>path. path \<noteq> ''/favicon.ico'' \<and> Requested path \<in> set before))
         \<and> length (filter is_Signalled (events s)) + sending s
             + length (filter (\<lambda>path. path \<noteq> ''/favicon.ico'') (handling s))
           = length (filter qualifying (events s))"
  using ordered_reachable [OF assms] accounted_reachable [OF assms]
  unfolding ordered_def accounted_def approved_def by blast


lemma approved_run_reachable: "auth_reachable example_auth ''key'' approved_state"
proof -
  let ?url = "''https://getpocket.com/auth/authorize?request_token=request-token''
               @ ''&redirect_uri=http://127.0.0.1:40000\<newline>''"
  let ?s1 = "\<lparr>main_at = AtObtainRequestToken, handling = [''/favicon.ico''], sending = 0,
              events = [Requested ''/favicon.ico'']\<rparr>"
  let ?s2 = "\<lparr>main_at = AtObtainRequestToken, handling = [], sending = 0,
              events = [Requested ''/favicon.ico'', Answered_NotFound]\<rparr>"
  let ?s3 = "\<lparr>main_at = AtReceive ''request-token'', handling = [], sending = 0,
              events = [Requested ''/favicon.ico'', Answered_NotFound,
                        Called_ObtainRequestToken, Printed ?url]\<rparr>"
  let ?s4 = "\<lparr>main_at = AtReceive ''request-token'', handling = [''/''], sending = 0,
              events = [Requested ''/favicon.ico'', Answered_NotFound,
                        Called_ObtainRequestToken, Printed ?url, Requested ''/'']\<rparr>"
  let ?s5 = "\<lparr>main_at = AtReceive ''request-token'', handling = [], sending = Suc 0,
              events = [Requested ''/favicon.ico'', Answered_NotFound,
                        Called_ObtainRequestToken, Printed ?url, Requested ''/'',
                        Answered_Authorized]\<rparr>"
  let ?s6 = "\<lparr>main_at = AtObtainAccessToken ''request-token'', handling = [], sending = 0,
              events = [Requested ''/favicon.ico'', Answered_NotFound,
                        Called_ObtainRequestToken, Printed ?url, Requested ''/'',
                        Answered_Authorized, Signalled]\<rparr>"
  have r0: "auth_reachable example_auth ''key'' auth_init"
    by (rule auth_reachable.start)
  have "auth_step example_auth ''key'' auth_init ?s1"
    using auth_step.request_arrives [of auth_init example_auth "''key''" "''/favicon.ico''"]
    by (simp add: auth_init_def listening_def)
  with r0 have r1: "auth_reachable example_auth ''key'' ?s1"
    by (rule auth_reachable.step)
  have "auth_step example_auth ''key'' ?s1 ?s2"
    using auth_step.handler_favicon [of ?s1 "[]" "[]" example_auth "''key''"]
    by simp
  with r1 have r2: "auth_reachable example_auth ''key'' ?s2"
    by (rule auth_reachable.step)
  have "auth_step example_auth ''key'' ?s2 ?s3"
    using auth_step.request_token [of ?s2 example_auth "''key''" "''request-token''"]
    by (simp add: example_auth_def)
  with r2 have r3: "auth_reachable example_auth ''key'' ?s3"
    by (rule auth_reachable.step)
  have "auth_step example_auth ''key'' ?s3 ?s4"
    using auth_step.request_arrives [of ?s3 example_auth "''key''" "''/''"]
    by (simp add: listening_def)
  with r3 have r4: "auth_reachable example_auth ''key'' ?s4"
    by (rule auth_reachable.step)
  have "auth_step example_auth ''key'' ?s4 ?s5"
    using auth_step.handler_authorized [of ?s4 "[]" "''/''" "[]" example_auth "''key''"]
    by simp
  with r4 have r5: "auth_reachable example_auth ''key'' ?s5"
    by (rule auth_reachable.step)
  have "auth_step example_auth ''key'' ?s5 ?s6"
    using auth_step.receive [of ?s5 "''request-token''" 0 example_auth "''key''"]
    by simp
  with r5 have r6: "auth_reachable example_auth ''key'' ?s6"
    by (rule auth_reachable.step)
  have "auth_step example_auth ''key'' ?s6 approved_state"
    using auth_step.exchange [of ?s6 "''request-token''" example_auth "''key''"]
    by (simp add: approved_state_def approved_run_def example_auth_def)
  with r6 show ?thesis
    by (rule auth_reachable.step)
qed

theorem exchange_after_qualifying_request_witness:
  "auth_reachable example_auth ''key'' approved_state
   \<and> events approved_state = take 7 approved_run @ [Called_ObtainAccessToken ''request-token'']
   \<and> (\<exists>path. path \<noteq> ''/favicon.ico'' \<and> Requested path \<in> set (take 7 approved_run))
   \<and> length (filter is_Signalled (events approved_state)) + sending approved_state
       + length (filter (\<lambda>path. path \<noteq> ''/favicon.ico'') (handling approved_state))
     = length (filter qualifying (events approved_state))"
proof -
  have ev: "events approved_state
            = take 7 approved_run @ Called_ObtainAccessToken ''request-token'' # []"
    by (simp add: approved_state_def approved_run_def)
  from exchange_after_qualifying_request [OF approved_run_reachable] ev
  have "\<exists>path. path \<noteq> ''/favicon.ico'' \<and> Requested path \<in> set (take 7 approved_run)"
    by blast
  with exchange_after_qualifying_request [OF approved_run_reachable] ev approved_run_reachable
  show ?thesis by simp
qed

section \<open>The delete-all branch\<close>














section \<open>The loop of commandList\<close>











section \<open>The probe of the cull branch\<close>

text \<open>
  Claim C1 expects a response with status 200 whose body contains
  \<open>isn't available anymore\<close> to be classified as not found. The code overrides the
  status only under \<open>err != nil\<close> (for the probe and again for the reading of the
  body), and a response with status 200 comes with a nil error. Here \<open>HEAD\<close> fails,
  \<open>GET\<close> returns such a page: the probe leaves the status at 200, and the page is
  reported as alive (\<open>200 OK\<close>, then the offer to open it).
\<close>

theorem probe_keeps_status_200:
  "fst (probe (example_env [item2] [True] (connection_closed ''Head'') removed_page)
          ''http://a.com/x'' (start []))
   = Returned (Some (removed_response ''http://a.com/x''), None)
   \<and> StatusCode (removed_response ''http://a.com/x'') = 200
   \<and> Contains (fst (Body (removed_response ''http://a.com/x''))) ''isn't available anymore''
   \<and> trace (snd (report_status
                    (example_env [item2] [True] (connection_closed ''Head'') removed_page) item2
                    (Some (removed_response ''http://a.com/x''), None) (start [''n\<newline>''])))
     = [Stdout '' 200 OK\<newline>'', Confirm ''Open?'', Stdout ''Open? [y/n]: '']"
  by code_simp

text \<open>
  Claim C2 expects a transport error on \<open>HEAD\<close> and \<open>GET\<close> to be reported and the loop
  to go on. When both fail, \<open>chk\<close> is nil and the error does not end in \<open>: EOF\<close>, so
  the code reads \<open>chk.Body\<close> and panics: with two items and a host that does not
  resolve, the run ends in the first item, after the two reports; the second item is never
  reached.
\<close>

theorem commandList_probe_panics:
  "commandList (example_env [item1, item2] [True] (no_such_host ''Head'') (no_such_host ''Get''))
     (list_conf True False) client0 (start [''n\<newline>'', ''n\<newline>''])
   = (Panic nil_dereference,
      \<lparr>trace =
         [Retrieve (RetrieveOption [] [] [] []), Stdout ''1/2 '', Stdout ''<http://a.com/x>'',
          Head ''http://a.com/x'',
          Stdout (''\<newline>Got an err when HEADing: Head '' @ Quote ''http://a.com/x''
                  @ '': dial tcp: lookup a.com: no such host, GETting instead...\<newline>''),
          Get ''http://a.com/x'',
          Stdout (''\<newline>Get '' @ Quote ''http://a.com/x''
                  @ '': dial tcp: lookup a.com: no such host\<newline>'')],
       stdin = [''n\<newline>'', ''n\<newline>'']\<rparr>)"
  by code_simp

section \<open>Restoring the access token\<close>

text \<open>
  Claim C7, as the specification states it: when the handshake succeeds and saving the
  credential fails, the error is returned together with the credential. The code returns
  \<open>nil, err\<close>: here the credential \<open>obtained\<close> is dropped.
\<close>

theorem restoreAccessToken_drops_credential:
  "restoreAccessToken readonly_files ''/home/u/.config/pocket'' ''key''
   = (Some (None, Some ''open /home/u/.config/pocket/auth.json: permission denied''),
      [''open /home/u/.config/pocket/auth.json: no such file or directory''])"
  by code_simp

text \<open>
  Claim C7, amended: when the credential file cannot be loaded, the handshake returns a
  credential without error, and saving it fails, \<open>restoreAccessToken\<close> returns the error
  of the save and a nil credential (after logging the error of the load).
\<close>

theorem restoreAccessToken_save_fails:
  assumes "loadJSONFromFile f (configDir @ ''/auth.json'') = Inl err"
    and "call_obtainAccessToken f consumerKey = Some (Some credential, None)"
    and "saveJSONToFile f (configDir @ ''/auth.json'') (Some credential) = Some err'"
  shows "restoreAccessToken f configDir consumerKey = (Some (None, Some err'), [err])"
  using assms by (simp add: restoreAccessToken_def)

theorem restoreAccessToken_save_fails_witness:
  "loadJSONFromFile readonly_files (''/home/u/.config/pocket'' @ ''/auth.json'')
     = Inl ''open /home/u/.config/pocket/auth.json: no such file or directory''
   \<and> call_obtainAccessToken readonly_files ''key'' = Some (Some obtained, None)
   \<and> saveJSONToFile readonly_files (''/home/u/.config/pocket'' @ ''/auth.json'') (Some obtained)
     = Some ''open /home/u/.config/pocket/auth.json: permission denied''
   \<and> fst (restoreAccessToken readonly_files ''/home/u/.config/pocket'' ''key'')
     = Some (None, Some ''open /home/u/.config/pocket/auth.json: permission denied'')"
proof -
  have h1: "loadJSONFromFile readonly_files (''/home/u/.config/pocket'' @ ''/auth.json'')
     = Inl ''open /home/u/.config/pocket/auth.json: no such file or directory''"
    by (simp add: loadJSONFromFile_def readonly_files_def)
  have h2: "call_obtainAccessToken readonly_files ''key'' = Some (Some obtained, None)"
    by (simp add: readonly_files_def)
  have h3: "saveJSONToFile readonly_files (''/home/u/.config/pocket'' @ ''/auth.json'') (Some obtained)
     = Some ''open /home/u/.config/pocket/auth.json: permission denied''"
    by (simp add: saveJSONToFile_def readonly_files_def)
  from restoreAccessToken_save_fails [OF h1 h2 h3] h1 h2 h3 show ?thesis by simp
qed

end
